theory Spec2Isabelle
  imports Main "HOL-Library.Sublist"
begin

section \<open>FlexiLoop motor controller\<close>

text \<open>
  A shallow embedding of the Arduino sketch that drives the loop actuator: one DC motor
  behind an MC33926 driver, a potentiometer for position feedback and a text protocol on
  the serial line. The sketch is a single thread of control; every global variable and
  every peripheral it touches is a field of the record \<open>world\<close>, and every function of
  the sketch takes the world and returns the new one.

  Integers are modelled as mathematical integers. The values the sketch computes with
  (samples 0..1023, speeds up to 400, counters between -1 and 10) stay far inside the
  range of the machine's 16-bit \<open>int\<close>. The two places where a value of another width
  is converted are written out: the \<open>long\<close> of \<open>String::toInt\<close> that \<open>parse_int\<close>
  returns as an \<open>int\<close>, and the \<open>int\<close> that \<open>delay\<close> takes as an \<open>unsigned long\<close>.
\<close>

subsection \<open>The world: globals and peripherals\<close>

text \<open>What \<open>Serial.print\<close> is given: a text, or a number that it renders in decimal.\<close>

datatype tok = Str string | Num int

text \<open>The calls made to the motor driver and to the timer, in order.\<close>

datatype event = SetSpeed int | Delay int

datatype direction = FORWARD | REVERSE

datatype extreme = HOME | MAX_pos

text \<open>
  The first four fields are the sketch's globals. The others are the peripherals:
  \<^item> \<open>motor\<close> is the speed last given to \<open>md.setM1Speed\<close>, \<open>rly_pin\<close> the level of the
    relay pin (\<open>True\<close> for HIGH);
  \<^item> \<open>actuator\<close> is what the potentiometer stands at; \<open>plant\<close> says where a
    \<open>delay\<close> of so many milliseconds leaves it when the motor is driven at a speed
    (\<open>plant speed ms position\<close>); \<open>noise\<close> is added to the successive samples, one
    entry for each \<open>analogRead\<close> (none left: no noise);
  \<^item> \<open>faults\<close> holds what the successive calls of \<open>md.getFault\<close> answer (none left:
    no fault);
  \<^item> \<open>serial_in\<close> holds what the successive polls of the serial line find: \<open>None\<close>
    when \<open>Serial.available()\<close> is 0, the frame read up to its \<open>;\<close> otherwise (none
    left: nothing available);
  \<^item> \<open>serial_out\<close> collects what is printed and \<open>trace\<close> the driver and timer calls.
\<close>

record world =
  current_speed :: int
  fb_val :: int
  home_limit :: int
  max_limit :: int
  motor :: int
  rly_pin :: bool
  actuator :: int
  plant :: "int \<Rightarrow> int \<Rightarrow> int \<Rightarrow> int"
  noise :: "int list"
  faults :: "bool list"
  serial_in :: "string option list"
  serial_out :: "tok list"
  trace :: "event list"

definition analogRead :: "world \<Rightarrow> int \<times> world" where
  "analogRead w =
     (case noise w of
        [] \<Rightarrow> (actuator w, w)
      | e # es \<Rightarrow> (actuator w + e, w\<lparr>noise := es\<rparr>))"

definition setM1Speed :: "int \<Rightarrow> world \<Rightarrow> world" where
  "setM1Speed s w = w\<lparr>motor := s, trace := trace w @ [SetSpeed s]\<rparr>"

definition getFault :: "world \<Rightarrow> bool \<times> world" where
  "getFault w =
     (case faults w of
        [] \<Rightarrow> (False, w)
      | f # fs \<Rightarrow> (f, w\<lparr>faults := fs\<rparr>))"

text \<open>
  \<open>delay\<close> takes an \<open>unsigned long\<close> of 32 bits: the duration arrives modulo \<open>2 ^ 32\<close>,
  a negative \<open>int\<close> as a wait of some 49 days.
\<close>

definition delay :: "int \<Rightarrow> world \<Rightarrow> world" where
  "delay ms w =
     w\<lparr>actuator := plant w (motor w) (ms mod 4294967296) (actuator w),
       trace := trace w @ [Delay (ms mod 4294967296)]\<rparr>"

definition serial_print :: "tok \<Rightarrow> world \<Rightarrow> world" where
  "serial_print t w = w\<lparr>serial_out := serial_out w @ [t]\<rparr>"

text \<open>\<open>if (Serial.available() > 0) data = Serial.readStringUntil(';')\<close>\<close>

definition serial_poll :: "world \<Rightarrow> string option \<times> world" where
  "serial_poll w =
     (case serial_in w of
        [] \<Rightarrow> (None, w)
      | f # fs \<Rightarrow> (f, w\<lparr>serial_in := fs\<rparr>))"

text \<open>\<open>data[0]\<close>: the String class answers 0 for an index beyond the text.\<close>

definition cmd_char :: "string \<Rightarrow> char" where
  "cmd_char data = (case data of [] \<Rightarrow> CHR 0x00 | c # cs \<Rightarrow> c)"

subsection \<open>Utility functions\<close>

text \<open>
  \<open>String::toInt\<close> is \<open>atol\<close> on the text: leading white space, an optional sign, then
  the decimal digits up to the first character that is not one; 0 when there is no digit.
\<close>

definition is_space :: "char \<Rightarrow> bool" where
  "is_space c = (c = CHR '' '' \<or> (9 \<le> (of_char c :: nat) \<and> (of_char c :: nat) \<le> 13))"

definition is_digit :: "char \<Rightarrow> bool" where
  "is_digit c = (48 \<le> (of_char c :: nat) \<and> (of_char c :: nat) \<le> 57)"

fun digits :: "int \<Rightarrow> string \<Rightarrow> int" where
  "digits acc [] = acc"
| "digits acc (c # cs) =
     (if is_digit c then digits (acc * 10 + (int (of_char c) - 48)) cs else acc)"

definition toInt :: "string \<Rightarrow> int" where
  "toInt s =
     (case dropWhile is_space s of
        [] \<Rightarrow> 0
      | c # cs \<Rightarrow>
          if c = CHR ''-'' then - digits 0 cs
          else if c = CHR ''+'' then digits 0 cs
          else digits 0 (c # cs))"

text \<open>The loop of \<open>parse_int\<close>: the characters from \<open>start_at\<close> up to the first \<open>.\<close>\<close>

fun collect :: "string \<Rightarrow> string" where
  "collect [] = []"
| "collect (c # cs) = (if c = CHR ''.'' then [] else c # collect cs)"

text \<open>
  \<open>val = s.toInt()\<close> stores a \<open>long\<close> in an \<open>int\<close> of 16 bits: the value is kept modulo
  \<open>2 ^ 16\<close>, in the range from -32768 to 32767.
\<close>

definition to_int :: "int \<Rightarrow> int" where
  "to_int v = (v + 32768) mod 65536 - 32768"

definition parse_int :: "string \<Rightarrow> nat \<Rightarrow> int" where
  "parse_int data start_at =
     (if length data > 4 then to_int (toInt (collect (drop start_at data))) else 0)"

definition get_feedback_value :: "world \<Rightarrow> int \<times> world" where
  "get_feedback_value w = analogRead w"

definition check_abort :: "world \<Rightarrow> bool \<times> world" where
  "check_abort w =
     (case serial_poll w of
        (None, w1) \<Rightarrow> (False, w1)
      | (Some data, w1) \<Rightarrow> (cmd_char data = CHR ''z'', w1))"

definition check_stop :: "world \<Rightarrow> bool \<times> world" where
  "check_stop w =
     (case serial_poll w of
        (None, w1) \<Rightarrow> (False, w1)
      | (Some data, w1) \<Rightarrow> (cmd_char data = CHR ''e'', w1))"

definition check_limit :: "world \<Rightarrow> bool \<times> world" where
  "check_limit w =
     (case get_feedback_value w of
        (v, w1) \<Rightarrow>
          (let w2 = w1\<lparr>fb_val := v\<rparr> in
           if home_limit w2 \<noteq> -1 \<and> max_limit w2 \<noteq> -1 then
             (if v < home_limit w2 + 2 \<or> v > max_limit w2 - 2 then (True, w2)
              else (False, w2))
           else (False, w2)))"

definition send_status :: "world \<Rightarrow> world" where
  "send_status w =
     (case get_feedback_value (serial_print (Str ''Status: '') w) of
        (v, w1) \<Rightarrow> serial_print (Str '';'') (serial_print (Num v) w1))"

text \<open>\<open>check_abort() || check_limit()\<close>: the limit is not sampled after an abort.\<close>

definition abort_or_limit :: "world \<Rightarrow> bool \<times> world" where
  "abort_or_limit w =
     (case check_abort w of
        (a, w1) \<Rightarrow> if a then (True, w1) else check_limit w1)"

text \<open>\<open>!check_stop() && !check_limit()\<close>: the limit is not sampled after a stop.\<close>

definition no_stop_no_limit :: "world \<Rightarrow> bool \<times> world" where
  "no_stop_no_limit w =
     (case check_stop w of
        (s, w1) \<Rightarrow>
          if s then (False, w1)
          else (case check_limit w1 of (l, w2) \<Rightarrow> (\<not> l, w2)))"

subsection \<open>Execution functions\<close>

definition move_ms :: "int \<Rightarrow> direction \<Rightarrow> world \<Rightarrow> bool \<times> world" where
  "move_ms ms pos w =
     (let speed = (if pos = FORWARD then current_speed w else - current_speed w) in
      case getFault (setM1Speed speed w) of
        (f, w1) \<Rightarrow>
          if f then (False, setM1Speed 0 w1)
          else (True, send_status (setM1Speed 0 (delay ms w1))))"

text \<open>
  The loops that wait for the actuator may run for ever, so they take fuel: the number
  of iterations they may still start. \<open>None\<close> says that the fuel ran out with the loop
  still running.
\<close>

text \<open>\<open>if (counter-- <= 0) { counter = 5; send_status(); }\<close>\<close>

definition status_tick :: "int \<Rightarrow> world \<Rightarrow> int \<times> world" where
  "status_tick counter w =
     (if counter \<le> 0 then (5, send_status w) else (counter - 1, w))"

fun home_loop :: "nat \<Rightarrow> int \<Rightarrow> world \<Rightarrow> world option" where
  "home_loop 0 st_counter w = None"
| "home_loop (Suc n) st_counter w =
     (case abort_or_limit w of
        (e, w1) \<Rightarrow>
          if e then Some w1
          else (case status_tick st_counter w1 of
                  (c, w2) \<Rightarrow> home_loop n c (delay 500 w2)))"

definition go_home_or_max :: "nat \<Rightarrow> extreme \<Rightarrow> world \<Rightarrow> (bool \<times> world) option" where
  "go_home_or_max n pos w =
     (let speed = (if pos = HOME then - current_speed w else current_speed w) in
      case getFault (setM1Speed speed w) of
        (f, w1) \<Rightarrow>
          if f then Some (False, setM1Speed 0 w1)
          else (case home_loop n 5 (delay 100 w1) of
                  None \<Rightarrow> None
                | Some w2 \<Rightarrow> Some (True, setM1Speed 0 (delay 100 w2))))"

text \<open>
  The source keeps an earlier sketch after the current one (lines 602 to 1142). Its
  \<open>go_home_or_max\<close> (lines 889 to 952) has the locals \<open>fb_val\<close>, \<open>last_fb_val\<close> and
  \<open>fb_counter\<close>: it ends when a sample within 2 units of the one before finds the
  counter run down, or on an abort. It knows no soft limits. Here \<open>last_fb_val\<close> is
  \<open>fb_val\<close> as the pass finds it and \<open>fb\<close> the sample the pass takes.
\<close>

fun home_loop_earlier :: "nat \<Rightarrow> int \<Rightarrow> int \<Rightarrow> int \<Rightarrow> world \<Rightarrow> world option" where
  "home_loop_earlier 0 last_fb_val fb_counter st_counter w = None"
| "home_loop_earlier (Suc n) last_fb_val fb_counter st_counter w =
     (case get_feedback_value w of
        (fb, w1) \<Rightarrow>
          if fb + 2 \<ge> last_fb_val \<and> fb - 2 \<le> last_fb_val \<and> fb_counter \<le> 0 then Some w1
          else
            (case status_tick st_counter w1 of
               (st, w2) \<Rightarrow>
                 (case check_abort w2 of
                    (a, w3) \<Rightarrow>
                      if a then Some (setM1Speed 0 w3)
                      else home_loop_earlier n fb
                             (if fb + 2 \<ge> last_fb_val \<and> fb - 2 \<le> last_fb_val then fb_counter - 1
                              else fb_counter)
                             st (delay 500 w3))))"

definition go_home_or_max_earlier :: "nat \<Rightarrow> extreme \<Rightarrow> world \<Rightarrow> (bool \<times> world) option" where
  "go_home_or_max_earlier n pos w =
     (let speed = (if pos = HOME then - current_speed w else current_speed w) in
      case getFault (setM1Speed speed w) of
        (f, w1) \<Rightarrow>
          if f then Some (False, setM1Speed 0 w1)
          else (case home_loop_earlier n (-1) 5 5 (delay 100 w1) of
                  None \<Rightarrow> None
                | Some w2 \<Rightarrow> Some (True, setM1Speed 0 (delay 100 w2))))"

text \<open>The coarse approach, forward: the result says whether \<open>end\<close> was set.\<close>

fun coarse_fwd :: "nat \<Rightarrow> int \<Rightarrow> int \<Rightarrow> world \<Rightarrow> (bool \<times> world) option" where
  "coarse_fwd 0 target counter w = None"
| "coarse_fwd (Suc n) target counter w =
     (case get_feedback_value w of
        (v, w1) \<Rightarrow>
          if v < target then
            (if counter \<le> 0 then
               (case abort_or_limit (send_status w1) of
                  (e, w2) \<Rightarrow>
                    if e then Some (True, w2)
                    else coarse_fwd n target 5 (delay 100 w2))
             else coarse_fwd n target (counter - 1) (delay 100 w1))
          else Some (False, w1))"

text \<open>The coarse approach, reverse: here the motor is stopped before the \<open>break\<close>.\<close>

fun coarse_rev :: "nat \<Rightarrow> int \<Rightarrow> int \<Rightarrow> world \<Rightarrow> (bool \<times> world) option" where
  "coarse_rev 0 target counter w = None"
| "coarse_rev (Suc n) target counter w =
     (case get_feedback_value w of
        (v, w1) \<Rightarrow>
          if v > target then
            (if counter \<le> 0 then
               (case abort_or_limit (send_status w1) of
                  (e, w2) \<Rightarrow>
                    if e then Some (True, setM1Speed 0 w2)
                    else coarse_rev n target 5 (delay 100 w2))
             else coarse_rev n target (counter - 1) (delay 100 w1))
          else Some (False, w1))"

text \<open>Taking up the gear slack: reverse pulses until the sample is not above the target.\<close>

fun slack_loop :: "nat \<Rightarrow> int \<Rightarrow> world \<Rightarrow> (bool \<times> world) option" where
  "slack_loop 0 target w = None"
| "slack_loop (Suc n) target w =
     (case get_feedback_value w of
        (v, w1) \<Rightarrow>
          if v > target then
            (case abort_or_limit (snd (move_ms 100 REVERSE w1)) of
               (e, w2) \<Rightarrow>
                 if e then Some (True, setM1Speed 0 w2)
                 else slack_loop n target w2)
          else Some (False, w1))"

text \<open>
  \<open>abs(get_feedback_value() - target)\<close>. In the Arduino core \<open>abs\<close> is the macro
  \<open>((x)>0?(x):-(x))\<close>, so the sensor is read twice: once for the test and once for the
  value.
\<close>

definition abs_diff :: "int \<Rightarrow> world \<Rightarrow> int \<times> world" where
  "abs_diff target w =
     (case get_feedback_value w of
        (v1, w1) \<Rightarrow>
          (case get_feedback_value w1 of
             (v2, w2) \<Rightarrow> (if v1 - target > 0 then v2 - target else - (v2 - target), w2)))"

text \<open>
  The correction loop \<open>while (diff > 1)\<close>. It needs no fuel: it goes round again only
  after \<open>attempts-- <= 0\<close> was false, with one attempt less.
\<close>

function fine_loop :: "int \<Rightarrow> int \<Rightarrow> int \<Rightarrow> world \<Rightarrow> world" where
  "fine_loop target attempts diff w =
     (if diff > 1 then
        (case get_feedback_value w of
           (v, w1) \<Rightarrow>
             (case abs_diff target
                     (delay 100 (snd (move_ms 50 (if v > target then REVERSE else FORWARD) w1))) of
                (diff', w2) \<Rightarrow>
                  if attempts \<le> 0 then w2
                  else (case check_abort w2 of
                          (a, w3) \<Rightarrow>
                            if a then w3
                            else fine_loop target (attempts - 1) diff' w3)))
      else w)"
  by pat_completeness auto
termination
  by (relation "measure (\<lambda>(t, a, d, w). nat a)") auto

declare fine_loop.simps [simp del]

text \<open>Lines 478 to 531: what follows the coarse loops, given \<open>end\<close>.\<close>

definition correct :: "nat \<Rightarrow> int \<Rightarrow> world \<Rightarrow> world option" where
  "correct n target w =
     (case abs_diff target (delay 500 (setM1Speed 0 w)) of
        (diff, w1) \<Rightarrow>
          if diff > 1 then
            (case slack_loop n target (w1\<lparr>current_speed := 50\<rparr>) of
               None \<Rightarrow> None
             | Some (e, w2) \<Rightarrow>
                 if e then Some w2
                 else (case abs_diff target w2 of
                         (diff', w3) \<Rightarrow> Some (fine_loop target 10 diff' w3)))
          else Some w1)"

definition finish :: "nat \<Rightarrow> int \<Rightarrow> bool \<Rightarrow> world \<Rightarrow> (bool \<times> world) option" where
  "finish n target e w =
     (let l_speed = current_speed w in
      case (if e then Some w else correct n target w) of
        None \<Rightarrow> None
      | Some w1 \<Rightarrow>
          Some (True, delay 500 (send_status (setM1Speed 0 (w1\<lparr>current_speed := l_speed\<rparr>)))))"

text \<open>Lines 431 to 449: the direction, the drive command and the fault test.\<close>

definition start_move :: "int \<Rightarrow> world \<Rightarrow> bool \<times> direction \<times> world" where
  "start_move target w =
     (case get_feedback_value w of
        (current_val, w0) \<Rightarrow>
          (let dir = (if target > current_val then FORWARD else REVERSE);
               speed = (if target > current_val then current_speed w0 else - current_speed w0) in
           case getFault (setM1Speed speed w0) of
             (f, w1) \<Rightarrow> if f then (True, dir, setM1Speed 0 w1) else (False, dir, w1)))"

text \<open>Lines 450 to 476: the first status frame and the coarse loop of the direction.\<close>

definition coarse :: "nat \<Rightarrow> direction \<Rightarrow> int \<Rightarrow> world \<Rightarrow> (bool \<times> world) option" where
  "coarse n dir target w =
     (if dir = FORWARD then coarse_fwd n target 5 (send_status w)
      else coarse_rev n target 5 (send_status w))"

definition move_to_feedback_value :: "nat \<Rightarrow> int \<Rightarrow> world \<Rightarrow> (bool \<times> world) option" where
  "move_to_feedback_value n target w =
     (case start_move target w of
        (f, dir, w1) \<Rightarrow>
          if f then Some (False, w1)
          else (case coarse n dir target w1 of
                  None \<Rightarrow> None
                | Some (e, w2) \<Rightarrow> finish n target e w2))"

fun run_loop :: "nat \<Rightarrow> int \<Rightarrow> world \<Rightarrow> world option" where
  "run_loop 0 counter w = None"
| "run_loop (Suc n) counter w =
     (case no_stop_no_limit w of
        (go, w1) \<Rightarrow>
          if go then
            (case status_tick counter (delay 100 w1) of
               (c, w2) \<Rightarrow> run_loop n c w2)
          else Some w1)"

definition move_fwd :: "nat \<Rightarrow> world \<Rightarrow> (bool \<times> world) option" where
  "move_fwd n w =
     (case getFault (setM1Speed (current_speed w) w) of
        (f, w1) \<Rightarrow>
          if f then Some (False, setM1Speed 0 w1)
          else (case run_loop n 5 w1 of
                  None \<Rightarrow> None
                | Some w2 \<Rightarrow> Some (True, setM1Speed 0 w2)))"

definition move_rev :: "nat \<Rightarrow> world \<Rightarrow> (bool \<times> world) option" where
  "move_rev n w =
     (case getFault (setM1Speed (- current_speed w) w) of
        (f, w1) \<Rightarrow>
          if f then Some (False, setM1Speed 0 w1)
          else (case run_loop n 5 (delay 300 w1) of
                  None \<Rightarrow> None
                | Some w2 \<Rightarrow> Some (True, setM1Speed 0 w2)))"

definition stop_move :: "world \<Rightarrow> bool \<times> world" where
  "stop_move w = (True, setM1Speed 0 w)"

subsection \<open>The command dispatcher\<close>

text \<open>\<open>Serial.print("Pos: "); Serial.print(get_feedback_value()); Serial.print(';');\<close>\<close>

definition print_value :: "string \<Rightarrow> world \<Rightarrow> world" where
  "print_value label w =
     (case get_feedback_value (serial_print (Str label) w) of
        (v, w1) \<Rightarrow> serial_print (Str '';'') (serial_print (Num v) w1))"

definition reply :: "string \<Rightarrow> world \<Rightarrow> world option" where
  "reply text w = Some (serial_print (Str text) w)"

definition process :: "nat \<Rightarrow> string \<Rightarrow> world \<Rightarrow> world option" where
  "process n data w =
     (let cmd = cmd_char data in
      if cmd = CHR ''a'' then reply ''RlyOn;'' (w\<lparr>rly_pin := False\<rparr>)
      else if cmd = CHR ''b'' then reply ''RlyOff;'' (w\<lparr>rly_pin := True\<rparr>)
      else if cmd = CHR ''c'' then
        (case move_fwd n w of None \<Rightarrow> None | Some (r, w1) \<Rightarrow> reply ''RunFwd;'' w1)
      else if cmd = CHR ''d'' then
        (case move_rev n w of None \<Rightarrow> None | Some (r, w1) \<Rightarrow> reply ''RunRev;'' w1)
      else if cmd = CHR ''e'' then reply ''StopRun;'' (snd (stop_move w))
      else if cmd = CHR ''f'' then
        (case move_ms 20 FORWARD w of
           (r, w1) \<Rightarrow>
             if r then reply ''NudgeFwd;'' w1
             else reply [CHR 0x0D, CHR 0x0A] (serial_print (Str ''Motor fault on nudge!;'') w1))
      else if cmd = CHR ''h'' then
        (case go_home_or_max n HOME w of
           None \<Rightarrow> None
         | Some (r, w1) \<Rightarrow>
             reply ''Home;'' (if \<not> r then serial_print (Str ''Motor fault;'') w1 else w1))
      else if cmd = CHR ''j'' then reply ''HomeLimit;'' (w\<lparr>home_limit := parse_int data 2\<rparr>)
      else if cmd = CHR ''k'' then reply ''MaxLimit;'' (w\<lparr>max_limit := parse_int data 2\<rparr>)
      else if cmd = CHR ''m'' then
        (case move_to_feedback_value n (parse_int data 2) w of
           None \<Rightarrow> None
         | Some (r, w1) \<Rightarrow>
             if r then Some (print_value ''MoveTo: '' w1)
             else reply ''Motor fault on move!;'' w1)
      else if cmd = CHR ''p'' then Some (print_value ''Pos: '' w)
      else if cmd = CHR ''r'' then
        (case move_ms 20 REVERSE w of
           (r, w1) \<Rightarrow>
             if r then reply ''NudgeRev;'' w1 else reply ''Motor fault on nudge!;'' w1)
      else if cmd = CHR ''s'' then reply ''Speed;'' (w\<lparr>current_speed := parse_int data 2\<rparr>)
      else if cmd = CHR ''v'' then
        (case move_ms (parse_int data 2) REVERSE w of
           (r, w1) \<Rightarrow>
             if r then reply ''msRev;'' w1 else reply ''Motor fault on reverse ms!;'' w1)
      else if cmd = CHR ''w'' then
        (case move_ms (parse_int data 2) FORWARD w of
           (r, w1) \<Rightarrow>
             if r then reply ''msFwd;'' w1 else reply ''Motor fault on forward ms!;'' w1)
      else if cmd = CHR ''x'' then
        (case go_home_or_max n MAX_pos w of
           None \<Rightarrow> None
         | Some (r, w1) \<Rightarrow>
             reply ''Max;'' (if \<not> r then serial_print (Str ''Motor fault;'') w1 else w1))
      else if cmd = CHR ''y'' then reply ''y;'' w
      else if cmd = CHR ''z'' then Some w
      else reply ''Bad cmd!;'' w)"

text \<open>The state after \<open>setup()\<close>, with nothing on the serial line and a plant that stands still.\<close>

definition boot :: world where
  "boot = \<lparr>current_speed = 200, fb_val = -1, home_limit = -1, max_limit = -1,
           motor = 0, rly_pin = True, actuator = 0, plant = (\<lambda>s ms p. p),
           noise = [], faults = [], serial_in = [], serial_out = [], trace = []\<rparr>"

subsection \<open>What an operation leaves behind\<close>

text \<open>What was printed, and which driver and timer calls were made, between two worlds.\<close>

definition printed :: "world \<Rightarrow> world \<Rightarrow> tok list" where
  "printed w w' = drop (length (serial_out w)) (serial_out w')"

definition happened :: "world \<Rightarrow> world \<Rightarrow> event list" where
  "happened w w' = drop (length (trace w)) (trace w')"

text \<open>The pieces of a status frame \<open>Status: <pos>;\<close>\<close>

fun status_tok :: "tok \<Rightarrow> bool" where
  "status_tok (Num v) = True"
| "status_tok (Str s) = (s = ''Status: '' \<or> s = '';'')"

text \<open>
  \<open>evolves w w'\<close>: the world \<open>w'\<close> comes after \<open>w\<close> with the configuration as it was,
  the inputs used up from the front, and only status frames printed.
\<close>

definition evolves :: "world \<Rightarrow> world \<Rightarrow> bool" where
  "evolves w w' \<longleftrightarrow>
     current_speed w' = current_speed w \<and> home_limit w' = home_limit w \<and>
     max_limit w' = max_limit w \<and> plant w' = plant w \<and> rly_pin w' = rly_pin w \<and>
     suffix (noise w') (noise w) \<and> suffix (faults w') (faults w) \<and>
     suffix (serial_in w') (serial_in w) \<and>
     prefix (serial_out w) (serial_out w') \<and> list_all status_tok (printed w w') \<and>
     prefix (trace w) (trace w')"

subsection \<open>The words of the specification\<close>

text \<open>
  The limit check as the specification words it: both limits configured and the sample
  within 2 units of either.
\<close>

definition near_limit_spec :: "int \<Rightarrow> int \<Rightarrow> int \<Rightarrow> bool" where
  "near_limit_spec s h m \<longleftrightarrow> h \<noteq> -1 \<and> m \<noteq> -1 \<and> (\<bar>s - h\<bar> \<le> 2 \<or> \<bar>s - m\<bar> \<le> 2)"

text \<open>The command characters that \<open>process\<close> has a case for.\<close>

definition known_cmd :: "char \<Rightarrow> bool" where
  "known_cmd c \<longleftrightarrow> c \<in> set ''abcdefhjkmprsvwxyz''"

text \<open>The frame that the next poll of the serial line will read, by its command character.\<close>

definition pending :: "world \<Rightarrow> char option" where
  "pending w =
     (case serial_in w of
        [] \<Rightarrow> None
      | None # fs \<Rightarrow> None
      | Some data # fs \<Rightarrow> Some (cmd_char data))"

text \<open>The soft-limit condition on the sample that the next read will give.\<close>

definition limit_now :: "world \<Rightarrow> bool" where
  "limit_now w \<longleftrightarrow>
     home_limit w \<noteq> -1 \<and> max_limit w \<noteq> -1 \<and>
     (fst (analogRead w) < home_limit w + 2 \<or> fst (analogRead w) > max_limit w - 2)"

text \<open>An actuator that moves 4 units in the driven direction during every delay.\<close>

definition stepper :: world where
  "stepper = boot\<lparr>plant := (\<lambda>s ms p. if s > 0 then p + 4 else if s < 0 then p - 4 else p)\<rparr>"

text \<open>\<open>quiet w w'\<close>: between the two worlds the error response was not printed.\<close>

definition quiet :: "world \<Rightarrow> world \<Rightarrow> bool" where
  "quiet w w' \<longleftrightarrow>
     prefix (serial_out w) (serial_out w') \<and> Str ''Bad cmd!;'' \<notin> set (printed w w')"

text \<open>The number of 50 ms pulses among the driver and timer calls.\<close>

definition pulses :: "event list \<Rightarrow> nat" where
  "pulses es = count_list es (Delay 50)"

text \<open>Whether a position lies in the zone where \<open>check_limit\<close> answers TRUE.\<close>

definition in_limit_zone :: "world \<Rightarrow> int \<Rightarrow> bool" where
  "in_limit_zone w p \<longleftrightarrow>
     home_limit w \<noteq> -1 \<and> max_limit w \<noteq> -1 \<and> (p < home_limit w + 2 \<or> p > max_limit w - 2)"

text \<open>
  A world in which nothing disturbs a move that stays among the positions \<open>S\<close>: the
  sensor is free of noise, the driver reports no fault, no frame on the serial line is an
  abort, and no position of \<open>S\<close> lies in the limit zone. Other frames may arrive, and
  the soft limits may be configured.
\<close>

definition undisturbed :: "int set \<Rightarrow> world \<Rightarrow> bool" where
  "undisturbed S w \<longleftrightarrow>
     noise w = [] \<and> True \<notin> set (faults w) \<and>
     list_all (\<lambda>f. case f of None \<Rightarrow> True | Some data \<Rightarrow> cmd_char data \<noteq> CHR ''z'') (serial_in w) \<and>
     (\<forall>p\<in>S. \<not> in_limit_zone w p)"



text \<open>
  One pass of the slack take-up up to its poll, and one pass of the correction loop up to
  its new \<open>diff\<close> and up to its poll.
\<close>

definition slack_poll :: "world \<Rightarrow> bool \<times> world" where
  "slack_poll w = abort_or_limit (snd (move_ms 100 REVERSE (snd (get_feedback_value w))))"

definition fine_pass :: "int \<Rightarrow> world \<Rightarrow> int \<times> world" where
  "fine_pass target w =
     abs_diff target
       (delay 100 (snd (move_ms 50 (if fst (get_feedback_value w) > target then REVERSE else FORWARD)
                          (snd (get_feedback_value w)))))"

definition fine_poll :: "int \<Rightarrow> world \<Rightarrow> bool \<times> world" where
  "fine_poll target w = check_abort (snd (fine_pass target w))"

section \<open>Properties\<close>

subsection \<open>Every operation only lets the world evolve\<close>

lemma evolves_refl [simp]: "evolves w w"
  by (simp add: evolves_def printed_def)

lemma printed_trans:
  "prefix (serial_out a) (serial_out b) \<Longrightarrow> prefix (serial_out b) (serial_out c) \<Longrightarrow>
   printed a c = printed a b @ printed b c"
  by (auto simp: printed_def prefix_def)

lemma happened_trans:
  "prefix (trace a) (trace b) \<Longrightarrow> prefix (trace b) (trace c) \<Longrightarrow>
   happened a c = happened a b @ happened b c"
  by (auto simp: happened_def prefix_def)

lemma evolves_trans [trans]:
  assumes ab: "evolves a b" and bc: "evolves b c"
  shows "evolves a c"
proof -
  have p: "prefix (serial_out a) (serial_out b)" "prefix (serial_out b) (serial_out c)"
    using ab bc by (simp_all add: evolves_def)
  have pr: "list_all status_tok (printed a c)"
    using ab bc by (simp add: printed_trans [OF p] evolves_def)
  have out: "prefix (serial_out a) (serial_out c)"
    using p by (rule prefix_order.trans)
  have tr: "prefix (trace a) (trace c)"
    using ab bc by (meson evolves_def prefix_order.trans)
  have n: "suffix (noise c) (noise a)"
    using ab bc by (meson evolves_def suffix_order.trans)
  have f: "suffix (faults c) (faults a)"
    using ab bc by (meson evolves_def suffix_order.trans)
  have i: "suffix (serial_in c) (serial_in a)"
    using ab bc by (meson evolves_def suffix_order.trans)
  show ?thesis
    using ab bc pr out tr n f i by (simp add: evolves_def)
qed

lemma evolves_analogRead: "analogRead w = (v, w') \<Longrightarrow> evolves w w'"
  by (auto simp: analogRead_def evolves_def printed_def suffix_def split: list.splits)

lemma evolves_get: "get_feedback_value w = (v, w') \<Longrightarrow> evolves w w'"
  by (simp add: get_feedback_value_def evolves_analogRead)

lemma evolves_setM1Speed [simp]: "evolves w (setM1Speed s w)"
  by (simp add: setM1Speed_def evolves_def printed_def)

lemma evolves_getFault: "getFault w = (f, w') \<Longrightarrow> evolves w w'"
  by (auto simp: getFault_def evolves_def printed_def suffix_def split: list.splits)

lemma evolves_delay [simp]: "evolves w (delay ms w)"
  by (simp add: delay_def evolves_def printed_def)

lemma evolves_serial_poll: "serial_poll w = (f, w') \<Longrightarrow> evolves w w'"
  by (auto simp: serial_poll_def evolves_def printed_def suffix_def split: list.splits)

lemma evolves_serial_print: "status_tok t \<Longrightarrow> evolves w (serial_print t w)"
  by (simp add: serial_print_def evolves_def printed_def)

lemma evolves_fb_val [simp]: "evolves w (w\<lparr>fb_val := v\<rparr>)"
  by (simp add: evolves_def printed_def)

lemma evolves_check_abort: "check_abort w = (a, w') \<Longrightarrow> evolves w w'"
  by (auto simp: check_abort_def split: prod.splits option.splits dest: evolves_serial_poll)

lemma evolves_check_stop: "check_stop w = (a, w') \<Longrightarrow> evolves w w'"
  by (auto simp: check_stop_def split: prod.splits option.splits dest: evolves_serial_poll)

lemma evolves_check_limit: "check_limit w = (l, w') \<Longrightarrow> evolves w w'"
  by (auto simp: check_limit_def Let_def split: prod.splits if_splits
           dest!: evolves_get intro: evolves_trans [OF _ evolves_fb_val])

lemma evolves_send_status [simp]: "evolves w (send_status w)"
proof -
  obtain v w1 where g: "get_feedback_value (serial_print (Str ''Status: '') w) = (v, w1)"
    by (cases "get_feedback_value (serial_print (Str ''Status: '') w)")
  have "evolves w (serial_print (Str ''Status: '') w)"
    by (simp add: evolves_serial_print)
  also have "evolves \<dots> w1" using g by (rule evolves_get)
  also have "evolves w1 (serial_print (Num v) w1)" by (simp add: evolves_serial_print)
  also have "evolves \<dots> (serial_print (Str '';'') (serial_print (Num v) w1))"
    by (simp add: evolves_serial_print)
  finally show ?thesis by (simp add: send_status_def g)
qed

lemma evolves_abort_or_limit: "abort_or_limit w = (e, w') \<Longrightarrow> evolves w w'"
  by (auto simp: abort_or_limit_def split: prod.splits if_splits
           dest!: evolves_check_abort evolves_check_limit intro: evolves_trans)

lemma evolves_no_stop_no_limit: "no_stop_no_limit w = (e, w') \<Longrightarrow> evolves w w'"
  by (auto simp: no_stop_no_limit_def split: prod.splits if_splits
           dest!: evolves_check_stop evolves_check_limit intro: evolves_trans)

lemma evolves_move_ms: "move_ms ms pos w = (r, w') \<Longrightarrow> evolves w w'"
proof -
  assume m: "move_ms ms pos w = (r, w')"
  define speed where "speed = (if pos = FORWARD then current_speed w else - current_speed w)"
  obtain f w1 where g: "getFault (setM1Speed speed w) = (f, w1)"
    by (cases "getFault (setM1Speed speed w)")
  have e1: "evolves w w1"
    using evolves_setM1Speed evolves_getFault [OF g] by (rule evolves_trans)
  show ?thesis
  proof (cases f)
    case True
    then have "w' = setM1Speed 0 w1"
      using m g by (simp add: move_ms_def speed_def)
    then show ?thesis using e1 evolves_setM1Speed evolves_trans by blast
  next
    case False
    then have w': "w' = send_status (setM1Speed 0 (delay ms w1))"
      using m g by (simp add: move_ms_def speed_def)
    have "evolves w1 (delay ms w1)" by simp
    also have "evolves \<dots> (setM1Speed 0 (delay ms w1))" by simp
    also have "evolves \<dots> w'" unfolding w' by simp
    finally show ?thesis using e1 evolves_trans by blast
  qed
qed

lemma evolves_status_tick: "status_tick c w = (c', w') \<Longrightarrow> evolves w w'"
  by (auto simp: status_tick_def split: if_splits)

lemma evolves_home_loop: "home_loop n c w = Some w' \<Longrightarrow> evolves w w'"
proof (induction n arbitrary: c w)
  case 0
  then show ?case by simp
next
  case (Suc n)
  obtain e w1 where a: "abort_or_limit w = (e, w1)" by (cases "abort_or_limit w")
  have e1: "evolves w w1" using a by (rule evolves_abort_or_limit)
  show ?case
  proof (cases e)
    case True
    then show ?thesis using Suc.prems a e1 by simp
  next
    case False
    obtain c' w2 where t: "status_tick c w1 = (c', w2)" by (cases "status_tick c w1")
    have "home_loop n c' (delay 500 w2) = Some w'"
      using Suc.prems a t False by simp
    then have "evolves (delay 500 w2) w'" by (rule Suc.IH)
    moreover have "evolves w (delay 500 w2)"
      using e1 evolves_status_tick [OF t] evolves_delay evolves_trans by blast
    ultimately show ?thesis by (rule evolves_trans [rotated])
  qed
qed

lemma evolves_run_loop: "run_loop n c w = Some w' \<Longrightarrow> evolves w w'"
proof (induction n arbitrary: c w)
  case 0
  then show ?case by simp
next
  case (Suc n)
  obtain go w1 where a: "no_stop_no_limit w = (go, w1)" by (cases "no_stop_no_limit w")
  have e1: "evolves w w1" using a by (rule evolves_no_stop_no_limit)
  show ?case
  proof (cases go)
    case False
    then show ?thesis using Suc.prems a e1 by simp
  next
    case True
    obtain c' w2 where t: "status_tick c (delay 100 w1) = (c', w2)"
      by (cases "status_tick c (delay 100 w1)")
    have "run_loop n c' w2 = Some w'"
      using Suc.prems a t True by simp
    then have "evolves w2 w'" by (rule Suc.IH)
    moreover have "evolves w w2"
      using e1 evolves_status_tick [OF t] evolves_delay evolves_trans by blast
    ultimately show ?thesis by (rule evolves_trans [rotated])
  qed
qed

lemma evolves_coarse_fwd: "coarse_fwd n t c w = Some (e, w') \<Longrightarrow> evolves w w'"
proof (induction n arbitrary: c w)
  case 0
  then show ?case by simp
next
  case (Suc n)
  obtain v w1 where g: "get_feedback_value w = (v, w1)" by (cases "get_feedback_value w")
  have e1: "evolves w w1" using g by (rule evolves_get)
  consider (reached) "\<not> v < t" | (quiet) "v < t" "\<not> c \<le> 0" | (poll) "v < t" "c \<le> 0"
    by blast
  then show ?case
  proof cases
    case reached
    then show ?thesis using Suc.prems g e1 by simp
  next
    case quiet
    then have "coarse_fwd n t (c - 1) (delay 100 w1) = Some (e, w')"
      using Suc.prems g by simp
    then have "evolves (delay 100 w1) w'" by (rule Suc.IH)
    then show ?thesis using e1 evolves_delay evolves_trans by blast
  next
    case poll
    obtain a w2 where p: "abort_or_limit (send_status w1) = (a, w2)"
      by (cases "abort_or_limit (send_status w1)")
    have e2: "evolves w w2"
      using e1 evolves_send_status evolves_abort_or_limit [OF p] evolves_trans by blast
    show ?thesis
    proof (cases a)
      case True
      then show ?thesis using Suc.prems g poll p e2 by simp
    next
      case False
      then have "coarse_fwd n t 5 (delay 100 w2) = Some (e, w')"
        using Suc.prems g poll p by simp
      then have "evolves (delay 100 w2) w'" by (rule Suc.IH)
      then show ?thesis using e2 evolves_delay evolves_trans by blast
    qed
  qed
qed

lemma evolves_coarse_rev: "coarse_rev n t c w = Some (e, w') \<Longrightarrow> evolves w w'"
proof (induction n arbitrary: c w)
  case 0
  then show ?case by simp
next
  case (Suc n)
  obtain v w1 where g: "get_feedback_value w = (v, w1)" by (cases "get_feedback_value w")
  have e1: "evolves w w1" using g by (rule evolves_get)
  consider (reached) "\<not> v > t" | (quiet) "v > t" "\<not> c \<le> 0" | (poll) "v > t" "c \<le> 0"
    by blast
  then show ?case
  proof cases
    case reached
    then show ?thesis using Suc.prems g e1 by simp
  next
    case quiet
    then have "coarse_rev n t (c - 1) (delay 100 w1) = Some (e, w')"
      using Suc.prems g by simp
    then have "evolves (delay 100 w1) w'" by (rule Suc.IH)
    then show ?thesis using e1 evolves_delay evolves_trans by blast
  next
    case poll
    obtain a w2 where p: "abort_or_limit (send_status w1) = (a, w2)"
      by (cases "abort_or_limit (send_status w1)")
    have e2: "evolves w w2"
      using e1 evolves_send_status evolves_abort_or_limit [OF p] evolves_trans by blast
    show ?thesis
    proof (cases a)
      case True
      then have "w' = setM1Speed 0 w2" using Suc.prems g poll p by simp
      then show ?thesis using e2 evolves_setM1Speed evolves_trans by blast
    next
      case False
      then have "coarse_rev n t 5 (delay 100 w2) = Some (e, w')"
        using Suc.prems g poll p by simp
      then have "evolves (delay 100 w2) w'" by (rule Suc.IH)
      then show ?thesis using e2 evolves_delay evolves_trans by blast
    qed
  qed
qed

lemma evolves_slack_loop: "slack_loop n t w = Some (e, w') \<Longrightarrow> evolves w w'"
proof (induction n arbitrary: w)
  case 0
  then show ?case by simp
next
  case (Suc n)
  obtain v w1 where g: "get_feedback_value w = (v, w1)" by (cases "get_feedback_value w")
  have e1: "evolves w w1" using g by (rule evolves_get)
  show ?case
  proof (cases "v > t")
    case False
    then show ?thesis using Suc.prems g e1 by simp
  next
    case True
    obtain r wm where m: "move_ms 100 REVERSE w1 = (r, wm)" by (cases "move_ms 100 REVERSE w1")
    obtain a w2 where p: "abort_or_limit wm = (a, w2)" by (cases "abort_or_limit wm")
    have e2: "evolves w w2"
      using e1 evolves_move_ms [OF m] evolves_abort_or_limit [OF p] evolves_trans by blast
    show ?thesis
    proof (cases a)
      case True
      then have "w' = setM1Speed 0 w2" using Suc.prems g \<open>v > t\<close> m p by simp
      then show ?thesis using e2 evolves_setM1Speed evolves_trans by blast
    next
      case False
      then have "slack_loop n t w2 = Some (e, w')"
        using Suc.prems g \<open>v > t\<close> m p by simp
      then have "evolves w2 w'" by (rule Suc.IH)
      then show ?thesis using e2 evolves_trans by blast
    qed
  qed
qed

lemma evolves_abs_diff: "abs_diff t w = (d, w') \<Longrightarrow> evolves w w'"
proof -
  assume a: "abs_diff t w = (d, w')"
  obtain v1 w1 where g1: "get_feedback_value w = (v1, w1)" by (cases "get_feedback_value w")
  obtain v2 w2 where g2: "get_feedback_value w1 = (v2, w2)" by (cases "get_feedback_value w1")
  have "w' = w2" using a g1 g2 by (simp add: abs_diff_def)
  then show ?thesis
    using evolves_get [OF g1] evolves_get [OF g2] evolves_trans by blast
qed

lemma evolves_fine_loop: "evolves w (fine_loop t a d w)"
proof (induction t a d w rule: fine_loop.induct)
  case (1 target attempts diff w)
  show ?case
  proof (cases "diff > 1")
    case False
    then show ?thesis by (simp add: fine_loop.simps)
  next
    case True
    obtain v w1 where g: "get_feedback_value w = (v, w1)" by (cases "get_feedback_value w")
    define dir where "dir = (if v > target then REVERSE else FORWARD)"
    obtain r wm where m: "move_ms 50 dir w1 = (r, wm)" by (cases "move_ms 50 dir w1")
    obtain d' w2 where g2: "abs_diff target (delay 100 wm) = (d', w2)"
      by (cases "abs_diff target (delay 100 wm)")
    obtain a w3 where c: "check_abort w2 = (a, w3)" by (cases "check_abort w2")
    have "evolves w w1" using g by (rule evolves_get)
    also have "evolves w1 wm" using m by (rule evolves_move_ms)
    also have "evolves wm (delay 100 wm)" by simp
    also have "evolves (delay 100 wm) w2" using g2 by (rule evolves_abs_diff)
    finally have e2: "evolves w w2" .
    have e3: "evolves w w3"
      using e2 evolves_check_abort [OF c] by (rule evolves_trans)
    consider (out) "attempts \<le> 0" | (abort) "\<not> attempts \<le> 0" "a"
      | (again) "\<not> attempts \<le> 0" "\<not> a" by blast
    then show ?thesis
    proof cases
      case out
      then show ?thesis
        using True g m g2 e2 by (subst fine_loop.simps) (simp add: dir_def)
    next
      case abort
      then show ?thesis
        using True g m g2 c e3 by (subst fine_loop.simps) (simp add: dir_def)
    next
      case again
      have g2': "(d', w2) = abs_diff target
          (delay 100 (snd (move_ms 50 (if target < v then REVERSE else FORWARD) w1)))"
        using g2 m by (simp add: dir_def)
      have "evolves w3 (fine_loop target (attempts - 1) d' w3)"
        by (rule "1.IH" [OF True g [symmetric] g2' again(1) c [symmetric] again(2)])
      with e3 have "evolves w (fine_loop target (attempts - 1) d' w3)"
        by (rule evolves_trans)
      then show ?thesis
        using True again g m g2 c by (subst fine_loop.simps) (simp add: dir_def)
    qed
  qed
qed

lemma motor_analogRead: "motor (snd (analogRead w)) = motor w"
  by (simp add: analogRead_def split: list.splits)

lemma motor_send_status [simp]: "motor (send_status w) = motor w"
  by (simp add: send_status_def get_feedback_value_def analogRead_def serial_print_def
           split: prod.splits list.splits)

lemma motor_delay [simp]: "motor (delay ms w) = motor w"
  by (simp add: delay_def)

lemma motor_setM1Speed [simp]: "motor (setM1Speed s w) = s"
  by (simp add: setM1Speed_def)

lemma motor_print_value [simp]: "motor (print_value l w) = motor w"
  by (simp add: print_value_def get_feedback_value_def analogRead_def serial_print_def
           split: prod.splits list.splits)

lemma last_send_status:
  "\<exists>pre v. serial_out (send_status w) = pre @ [Str ''Status: '', Num v, Str '';'']"
  by (simp add: send_status_def get_feedback_value_def analogRead_def serial_print_def
           split: prod.splits list.splits)

lemma serial_out_delay [simp]: "serial_out (delay ms w) = serial_out w"
  by (simp add: delay_def)

lemma evolves_speed_reset:
  "evolves (w\<lparr>current_speed := c\<rparr>) w' \<Longrightarrow> evolves w (w'\<lparr>current_speed := current_speed w\<rparr>)"
  by (simp add: evolves_def printed_def)

lemma evolves_speed_same:
  "evolves w w' \<Longrightarrow> w'\<lparr>current_speed := current_speed w\<rparr> = w'"
  by (simp add: evolves_def)

lemma evolves_correct:
  assumes "correct n t w = Some w'"
  shows "evolves w (w'\<lparr>current_speed := current_speed w\<rparr>)"
proof -
  obtain d w1 where g: "abs_diff t (delay 500 (setM1Speed 0 w)) = (d, w1)"
    by (cases "abs_diff t (delay 500 (setM1Speed 0 w))")
  have "evolves w (setM1Speed 0 w)" by simp
  also have "evolves \<dots> (delay 500 (setM1Speed 0 w))" by simp
  also have "evolves \<dots> w1" using g by (rule evolves_abs_diff)
  finally have e1: "evolves w w1" .
  show ?thesis
  proof (cases "d > 1")
    case False
    then have "w' = w1" using assms g by (simp add: correct_def)
    then show ?thesis using e1 by (simp add: evolves_speed_same)
  next
    case True
    obtain e w2 where s: "slack_loop n t (w1\<lparr>current_speed := 50\<rparr>) = Some (e, w2)"
      using assms g True by (auto simp: correct_def split: option.splits)
    have e2: "evolves (w1\<lparr>current_speed := 50\<rparr>) w2"
      using s by (rule evolves_slack_loop)
    have "evolves (w1\<lparr>current_speed := 50\<rparr>) w'"
    proof (cases e)
      case True
      then show ?thesis using assms g \<open>d > 1\<close> s e2 by (simp add: correct_def)
    next
      case False
      obtain d' w3 where g3: "abs_diff t w2 = (d', w3)"
        by (cases "abs_diff t w2")
      have w': "w' = fine_loop t 10 d' w3"
        using assms g \<open>d > 1\<close> s False g3 by (simp add: correct_def)
      note e2
      also have "evolves w2 w3" using g3 by (rule evolves_abs_diff)
      also have "evolves w3 w'" unfolding w' by (rule evolves_fine_loop)
      finally show ?thesis .
    qed
    then have "evolves w1 (w'\<lparr>current_speed := current_speed w1\<rparr>)"
      by (rule evolves_speed_reset)
    moreover have "current_speed w1 = current_speed w" using e1 by (simp add: evolves_def)
    ultimately have "evolves w1 (w'\<lparr>current_speed := current_speed w\<rparr>)" by simp
    with e1 show ?thesis by (rule evolves_trans)
  qed
qed

lemma finish_result:
  assumes "finish n t e w = Some (r, w')"
  shows "r \<and> evolves w w' \<and> motor w' = 0 \<and>
         (\<exists>pre v. serial_out w' = pre @ [Str ''Status: '', Num v, Str '';''])"
proof -
  obtain w1 where c: "(if e then Some w else correct n t w) = Some w1"
    by (cases "if e then Some w else correct n t w") (use assms in \<open>simp_all add: finish_def\<close>)
  have rw: "(r, w') = (True, delay 500 (send_status (setM1Speed 0 (w1\<lparr>current_speed := current_speed w\<rparr>))))"
    using assms c by (simp add: finish_def)
  then have r: "r"
    and w': "w' = delay 500 (send_status (setM1Speed 0 (w1\<lparr>current_speed := current_speed w\<rparr>)))"
    by blast+
  have "evolves w (w1\<lparr>current_speed := current_speed w\<rparr>)"
  proof (cases e)
    case True
    then have "w1 = w" using c by simp
    then show ?thesis by (simp add: evolves_speed_same)
  next
    case False
    then have "correct n t w = Some w1" using c by simp
    then show ?thesis by (rule evolves_correct)
  qed
  also have "evolves \<dots> (setM1Speed 0 (w1\<lparr>current_speed := current_speed w\<rparr>))"
    by simp
  also have "evolves \<dots> (send_status (setM1Speed 0 (w1\<lparr>current_speed := current_speed w\<rparr>)))"
    by simp
  also have "evolves \<dots> w'"
    unfolding w' by simp
  finally have "evolves w w'" .
  moreover have "motor w' = 0" by (simp add: w')
  moreover have "\<exists>pre v. serial_out w' = pre @ [Str ''Status: '', Num v, Str '';'']"
    unfolding w' by (simp add: last_send_status)
  ultimately show ?thesis using r by blast
qed

lemma evolves_start_move: "start_move t w = (f, dir, w') \<Longrightarrow> evolves w w'"
proof -
  assume s: "start_move t w = (f, dir, w')"
  obtain cv w0 where g: "get_feedback_value w = (cv, w0)" by (cases "get_feedback_value w")
  define speed where "speed = (if t > cv then current_speed w0 else - current_speed w0)"
  obtain fl w1 where gf: "getFault (setM1Speed speed w0) = (fl, w1)"
    by (cases "getFault (setM1Speed speed w0)")
  have e1: "evolves w w1"
    using evolves_get [OF g] evolves_setM1Speed evolves_getFault [OF gf] evolves_trans by blast
  have "w' = w1 \<or> w' = setM1Speed 0 w1"
    using s g gf by (auto simp: start_move_def Let_def speed_def split: if_splits)
  then show ?thesis using e1 evolves_setM1Speed evolves_trans by blast
qed

lemma start_move_fault: "start_move t w = (True, dir, w') \<Longrightarrow> motor w' = 0"
  by (auto simp: start_move_def Let_def split: prod.splits if_splits)

lemma evolves_coarse: "coarse n dir t w = Some (e, w') \<Longrightarrow> evolves w w'"
proof -
  assume "coarse n dir t w = Some (e, w')"
  then have "evolves (send_status w) w'"
    by (auto simp: coarse_def split: if_splits dest: evolves_coarse_fwd evolves_coarse_rev)
  with evolves_send_status show ?thesis by (rule evolves_trans)
qed

lemma move_to_result:
  assumes "move_to_feedback_value n t w = Some (r, w')"
  shows "evolves w w' \<and> motor w' = 0 \<and>
         (r \<longrightarrow> (\<exists>pre v. serial_out w' = pre @ [Str ''Status: '', Num v, Str '';'']))"
proof -
  obtain f dir w1 where s: "start_move t w = (f, dir, w1)" by (cases "start_move t w") auto
  have e1: "evolves w w1" using s by (rule evolves_start_move)
  show ?thesis
  proof (cases f)
    case True
    then have "r = False" "w' = w1" using assms s by (simp_all add: move_to_feedback_value_def)
    then show ?thesis using e1 start_move_fault s True by auto
  next
    case False
    obtain e w2 where c: "coarse n dir t w1 = Some (e, w2)" and fin: "finish n t e w2 = Some (r, w')"
      using assms s False by (auto simp: move_to_feedback_value_def split: option.splits)
    have "evolves w w2" using e1 evolves_coarse [OF c] evolves_trans by blast
    then show ?thesis using finish_result [OF fin] evolves_trans by blast
  qed
qed

lemma go_home_or_max_motor: "go_home_or_max n pos w = Some (r, w') \<Longrightarrow> motor w' = 0"
  by (auto simp: go_home_or_max_def Let_def split: prod.splits if_splits option.splits)

lemma move_ms_motor: "move_ms ms dir w = (r, w') \<Longrightarrow> motor w' = 0"
  by (auto simp: move_ms_def Let_def split: prod.splits if_splits)

lemma move_fwd_motor: "move_fwd n w = Some (r, w') \<Longrightarrow> motor w' = 0"
  by (auto simp: move_fwd_def split: prod.splits if_splits option.splits)

lemma move_rev_motor: "move_rev n w = Some (r, w') \<Longrightarrow> motor w' = 0"
  by (auto simp: move_rev_def split: prod.splits if_splits option.splits)

subsection \<open>The motor is stopped when an operation returns\<close>

text \<open>
  C10. Each of \<open>move_to_feedback_value\<close>, \<open>go_home_or_max\<close>, \<open>move_ms\<close>, \<open>move_fwd\<close>
  and \<open>move_rev\<close>, whenever it returns and whatever it returns (TRUE after a completed
  or interrupted run, FALSE after a driver fault), has commanded the motor to speed 0 last.
\<close>

theorem motor_stopped_on_return:
  "(move_to_feedback_value n t wa = Some (ra, wa') \<longrightarrow> motor wa' = 0) \<and>
   (go_home_or_max n pos wb = Some (rb, wb') \<longrightarrow> motor wb' = 0) \<and>
   (move_ms ms dir wc = (rc, wc') \<longrightarrow> motor wc' = 0) \<and>
   (move_fwd n wd = Some (rd, wd') \<longrightarrow> motor wd' = 0) \<and>
   (move_rev n we = Some (re, we') \<longrightarrow> motor we' = 0)"
proof (intro conjI impI)
  assume "move_to_feedback_value n t wa = Some (ra, wa')"
  then show "motor wa' = 0" by (simp add: move_to_result)
next
  assume "go_home_or_max n pos wb = Some (rb, wb')"
  then show "motor wb' = 0" by (rule go_home_or_max_motor)
next
  assume "move_ms ms dir wc = (rc, wc')"
  then show "motor wc' = 0" by (rule move_ms_motor)
next
  assume "move_fwd n wd = Some (rd, wd')"
  then show "motor wd' = 0" by (rule move_fwd_motor)
next
  assume "move_rev n we = Some (re, we')"
  then show "motor we' = 0" by (rule move_rev_motor)
qed

theorem motor_stopped_on_return_witness:
  "\<exists>wa' wb' wc' wd' we'.
     move_to_feedback_value 1 5 (boot\<lparr>actuator := 5\<rparr>) = Some (True, wa') \<and> motor wa' = 0 \<and>
     go_home_or_max 1 HOME (boot\<lparr>serial_in := [Some ''z'']\<rparr>) = Some (True, wb') \<and> motor wb' = 0 \<and>
     move_ms 20 FORWARD (boot\<lparr>faults := [True]\<rparr>) = (False, wc') \<and> motor wc' = 0 \<and>
     move_fwd 1 (boot\<lparr>serial_in := [Some ''e'']\<rparr>) = Some (True, wd') \<and> motor wd' = 0 \<and>
     move_rev 1 (boot\<lparr>serial_in := [Some ''e'']\<rparr>) = Some (True, we') \<and> motor we' = 0"
proof -
  have "map_option fst (move_to_feedback_value 1 5 (boot\<lparr>actuator := 5\<rparr>)) = Some True"
    by code_simp
  then obtain wa' where a: "move_to_feedback_value 1 5 (boot\<lparr>actuator := 5\<rparr>) = Some (True, wa')"
    by auto
  have "map_option fst (go_home_or_max 1 HOME (boot\<lparr>serial_in := [Some ''z'']\<rparr>)) = Some True"
    by code_simp
  then obtain wb' where b: "go_home_or_max 1 HOME (boot\<lparr>serial_in := [Some ''z'']\<rparr>) = Some (True, wb')"
    by auto
  have "fst (move_ms 20 FORWARD (boot\<lparr>faults := [True]\<rparr>)) = False"
    by code_simp
  then obtain wc' where c: "move_ms 20 FORWARD (boot\<lparr>faults := [True]\<rparr>) = (False, wc')"
    by (cases "move_ms 20 FORWARD (boot\<lparr>faults := [True]\<rparr>)") auto
  have "map_option fst (move_fwd 1 (boot\<lparr>serial_in := [Some ''e'']\<rparr>)) = Some True"
    by code_simp
  then obtain wd' where d: "move_fwd 1 (boot\<lparr>serial_in := [Some ''e'']\<rparr>) = Some (True, wd')"
    by auto
  have "map_option fst (move_rev 1 (boot\<lparr>serial_in := [Some ''e'']\<rparr>)) = Some True"
    by code_simp
  then obtain we' where e: "move_rev 1 (boot\<lparr>serial_in := [Some ''e'']\<rparr>) = Some (True, we')"
    by auto
  from motor_stopped_on_return [of 1 5 "boot\<lparr>actuator := 5\<rparr>" True wa' HOME
      "boot\<lparr>serial_in := [Some ''z'']\<rparr>" True wb' 20 FORWARD "boot\<lparr>faults := [True]\<rparr>" False wc'
      "boot\<lparr>serial_in := [Some ''e'']\<rparr>" True wd' "boot\<lparr>serial_in := [Some ''e'']\<rparr>" True we']
  show ?thesis using a b c d e by blast
qed

subsection \<open>The soft-limit check\<close>

lemma check_limit_iff:
  "fst (check_limit w) \<longleftrightarrow>
     home_limit w \<noteq> -1 \<and> max_limit w \<noteq> -1 \<and>
     (fst (get_feedback_value w) < home_limit w + 2 \<or> fst (get_feedback_value w) > max_limit w - 2)"
  by (auto simp: check_limit_def get_feedback_value_def analogRead_def Let_def
           split: prod.splits list.splits)

text \<open>
  C3, as the code has it. \<open>check_limit\<close> answers TRUE exactly when both limits are
  configured (neither is -1) and the sample is below \<open>home_limit + 2\<close> or above
  \<open>max_limit - 2\<close>: one unit inside a limit, on it, or anywhere beyond it. The sample is
  also stored in \<open>fb_val\<close>. With either limit at -1 the answer is FALSE.
\<close>

theorem check_limit_one_sided:
  "(fst (check_limit w) \<longleftrightarrow>
      home_limit w \<noteq> -1 \<and> max_limit w \<noteq> -1 \<and>
      (fst (get_feedback_value w) < home_limit w + 2 \<or>
       fst (get_feedback_value w) > max_limit w - 2)) \<and>
   fb_val (snd (check_limit w)) = fst (get_feedback_value w)"
  by (auto simp: check_limit_def get_feedback_value_def analogRead_def Let_def
           split: prod.splits list.splits)

text \<open>
  The claim as worded fails both ways. With the limits at 100 and 900, the sample 102 is
  within 2 units of the home limit and the check answers FALSE; the sample 50 is within
  2 units of neither limit and the check answers TRUE.
\<close>

theorem check_limit_within_2_counterexample:
  "near_limit_spec 102 100 900 \<and>
   fst (check_limit (boot\<lparr>home_limit := 100, max_limit := 900, actuator := 102\<rparr>)) = False \<and>
   near_limit_spec 50 100 900 = False \<and>
   fst (check_limit (boot\<lparr>home_limit := 100, max_limit := 900, actuator := 50\<rparr>)) = True"
  by (simp add: near_limit_spec_def check_limit_def get_feedback_value_def analogRead_def
        boot_def Let_def)

subsection \<open>Short frames\<close>

text \<open>
  C9. For a frame of at most 4 characters \<open>parse_int\<close> returns 0, whatever the frame
  holds; so a set-speed frame that short sets \<open>current_speed\<close> to 0. The frame \<open>s,5.\<close>
  is the witness.
\<close>

theorem parse_int_short_frame:
  "length data \<le> 4 \<Longrightarrow>
   parse_int data start_at = 0 \<and>
   (cmd_char data = CHR ''s'' \<longrightarrow> map_option current_speed (process n data w) = Some 0)"
  by (simp add: parse_int_def process_def reply_def serial_print_def)

theorem parse_int_short_frame_witness:
  "length ''s,5.'' \<le> 4 \<and> parse_int ''s,5.'' 2 = 0 \<and> cmd_char ''s,5.'' = CHR ''s'' \<and>
   map_option current_speed (process 0 ''s,5.'' boot) = Some 0 \<and>
   parse_int ''s,05.'' 2 = 5"
proof -
  have l: "length ''s,5.'' \<le> 4" by simp
  have c: "cmd_char ''s,5.'' = CHR ''s''" by (simp add: cmd_char_def)
  have "parse_int ''s,05.'' 2 = 5"
    by (simp add: parse_int_def to_int_def toInt_def is_space_def is_digit_def)
  then show ?thesis
    using parse_int_short_frame [OF l, of 2 0 boot] l c by simp
qed

subsection \<open>What a poll looks at\<close>

lemma check_abort_iff: "fst (check_abort w) \<longleftrightarrow> pending w = Some (CHR ''z'')"
  by (auto simp: check_abort_def serial_poll_def pending_def split: list.splits option.splits)

lemma check_stop_iff: "fst (check_stop w) \<longleftrightarrow> pending w = Some (CHR ''e'')"
  by (auto simp: check_stop_def serial_poll_def pending_def split: list.splits option.splits)

lemma limit_now_check_abort: "limit_now (snd (check_abort w)) = limit_now w"
  by (auto simp: check_abort_def serial_poll_def limit_now_def analogRead_def
           split: list.splits option.splits)

lemma limit_now_check_stop: "limit_now (snd (check_stop w)) = limit_now w"
  by (auto simp: check_stop_def serial_poll_def limit_now_def analogRead_def
           split: list.splits option.splits)

lemma check_limit_now: "fst (check_limit w) = limit_now w"
  by (simp add: check_limit_iff limit_now_def get_feedback_value_def)

lemma abort_or_limit_iff:
  "fst (abort_or_limit w) \<longleftrightarrow> pending w = Some (CHR ''z'') \<or> limit_now w"
proof (cases "fst (check_abort w)")
  case True
  then show ?thesis
    using check_abort_iff [of w] by (cases "check_abort w") (auto simp: abort_or_limit_def)
next
  case False
  then have "fst (abort_or_limit w) = fst (check_limit (snd (check_abort w)))"
    by (cases "check_abort w") (auto simp: abort_or_limit_def)
  then show ?thesis
    using False check_abort_iff [of w] by (simp add: check_limit_now limit_now_check_abort)
qed

lemma no_stop_no_limit_iff:
  "fst (no_stop_no_limit w) \<longleftrightarrow> \<not> (pending w = Some (CHR ''e'') \<or> limit_now w)"
proof (cases "fst (check_stop w)")
  case True
  then show ?thesis
    using check_stop_iff [of w] by (cases "check_stop w") (auto simp: no_stop_no_limit_def)
next
  case False
  then have "fst (no_stop_no_limit w) = (\<not> fst (check_limit (snd (check_stop w))))"
    by (cases "check_stop w") (auto simp: no_stop_no_limit_def split: prod.splits)
  then show ?thesis
    using False check_stop_iff [of w] by (simp add: check_limit_now limit_now_check_stop)
qed

lemma serial_in_check_abort: "serial_in (snd (check_abort w)) = tl (serial_in w)"
  by (simp add: check_abort_def serial_poll_def split: list.splits option.splits)

lemma serial_in_check_stop: "serial_in (snd (check_stop w)) = tl (serial_in w)"
  by (simp add: check_stop_def serial_poll_def split: list.splits option.splits)

lemma serial_in_check_limit: "serial_in (snd (check_limit w)) = serial_in w"
  by (simp add: check_limit_def get_feedback_value_def analogRead_def Let_def
           split: list.splits)

lemma serial_in_abort_or_limit: "serial_in (snd (abort_or_limit w)) = tl (serial_in w)"
  by (cases "check_abort w")
     (use serial_in_check_abort [of w] serial_in_check_limit in \<open>auto simp: abort_or_limit_def\<close>)

lemma serial_in_no_stop_no_limit: "serial_in (snd (no_stop_no_limit w)) = tl (serial_in w)"
proof -
  obtain s w1 where c: "check_stop w = (s, w1)" by (cases "check_stop w")
  obtain l w2 where l: "check_limit w1 = (l, w2)" by (cases "check_limit w1")
  have "serial_in w1 = tl (serial_in w)" using serial_in_check_stop [of w] c by simp
  moreover have "serial_in w2 = serial_in w1" using serial_in_check_limit [of w1] l by simp
  ultimately show ?thesis using c l by (simp add: no_stop_no_limit_def)
qed

lemma home_loop_pass:
  "home_loop (Suc n) c w =
     (if fst (abort_or_limit w) then Some (snd (abort_or_limit w))
      else home_loop n (fst (status_tick c (snd (abort_or_limit w))))
             (delay 500 (snd (status_tick c (snd (abort_or_limit w))))))"
  by (cases "abort_or_limit w"; cases "status_tick c (snd (abort_or_limit w))") auto

lemma run_loop_pass:
  "run_loop (Suc n) c w =
     (if fst (no_stop_no_limit w)
      then run_loop n (fst (status_tick c (delay 100 (snd (no_stop_no_limit w)))))
             (snd (status_tick c (delay 100 (snd (no_stop_no_limit w)))))
      else Some (snd (no_stop_no_limit w)))"
  by (cases "no_stop_no_limit w"; cases "status_tick c (delay 100 (snd (no_stop_no_limit w)))") auto

lemma coarse_fwd_poll:
  "fst (get_feedback_value w) < t \<Longrightarrow> c \<le> 0 \<Longrightarrow>
   coarse_fwd (Suc n) t c w =
     (if fst (abort_or_limit (send_status (snd (get_feedback_value w))))
      then Some (True, snd (abort_or_limit (send_status (snd (get_feedback_value w)))))
      else coarse_fwd n t 5
             (delay 100 (snd (abort_or_limit (send_status (snd (get_feedback_value w)))))))"
  by (cases "get_feedback_value w";
      cases "abort_or_limit (send_status (snd (get_feedback_value w)))") auto

lemma coarse_rev_poll:
  "fst (get_feedback_value w) > t \<Longrightarrow> c \<le> 0 \<Longrightarrow>
   coarse_rev (Suc n) t c w =
     (if fst (abort_or_limit (send_status (snd (get_feedback_value w))))
      then Some (True, setM1Speed 0 (snd (abort_or_limit (send_status (snd (get_feedback_value w))))))
      else coarse_rev n t 5
             (delay 100 (snd (abort_or_limit (send_status (snd (get_feedback_value w)))))))"
  by (cases "get_feedback_value w";
      cases "abort_or_limit (send_status (snd (get_feedback_value w)))") auto

lemma slack_loop_pass:
  "fst (get_feedback_value w) > t \<Longrightarrow>
   slack_loop (Suc n) t w =
     (if fst (slack_poll w) then Some (True, setM1Speed 0 (snd (slack_poll w)))
      else slack_loop n t (snd (slack_poll w)))"
  by (cases "get_feedback_value w"; cases "slack_poll w") (auto simp: slack_poll_def)

lemma fine_loop_pass:
  "1 < d \<Longrightarrow> 0 < a \<Longrightarrow>
   fine_loop t a d w =
     (if fst (fine_poll t w) then snd (fine_poll t w)
      else fine_loop t (a - 1) (fst (fine_pass t w)) (snd (fine_poll t w)))"
  by (subst fine_loop.simps)
     (cases "get_feedback_value w"; cases "fine_pass t w"; cases "fine_poll t w";
      auto simp: fine_pass_def fine_poll_def)

text \<open>
  C6, as the code has it. Every poll reads the pending frame off the serial line,
  whatever it is. A poll of the closed-loop move (coarse loops and slack take-up) and of
  the calibration run answers TRUE exactly when that frame is an abort or the soft limit
  is reached; it does not look for a stop. A poll of the free run lets the loop go on
  exactly when that frame is not a stop and the soft limit is not reached; it does not
  look for an abort. The poll of the correction loop answers TRUE exactly when that frame
  is an abort. Each loop ends at the poll that sees its signal and goes round again after
  a poll that does not: the calibration loop, the free-run loop, a coarse loop whose
  counter has run down, the slack take-up (which stops the motor as it ends) and the
  correction loop with attempts left.
\<close>

theorem polls_check_two_signals:
  "(fst (abort_or_limit w) \<longleftrightarrow> pending w = Some (CHR ''z'') \<or> limit_now w) \<and>
   (fst (no_stop_no_limit w) \<longleftrightarrow> \<not> (pending w = Some (CHR ''e'') \<or> limit_now w)) \<and>
   (fst (check_abort w) \<longleftrightarrow> pending w = Some (CHR ''z'')) \<and>
   (fst (abort_or_limit w) \<longrightarrow> home_loop (Suc n) c w = Some (snd (abort_or_limit w))) \<and>
   (\<not> fst (no_stop_no_limit w) \<longrightarrow> run_loop (Suc n) c w = Some (snd (no_stop_no_limit w))) \<and>
   (fst (get_feedback_value w) < t \<and> c \<le> 0 \<and>
    fst (abort_or_limit (send_status (snd (get_feedback_value w)))) \<longrightarrow>
      coarse_fwd (Suc n) t c w =
        Some (True, snd (abort_or_limit (send_status (snd (get_feedback_value w)))))) \<and>
   (fst (get_feedback_value w) > t \<and> c \<le> 0 \<and>
    fst (abort_or_limit (send_status (snd (get_feedback_value w)))) \<longrightarrow>
      coarse_rev (Suc n) t c w =
        Some (True, setM1Speed 0 (snd (abort_or_limit (send_status (snd (get_feedback_value w))))))) \<and>
   serial_in (snd (abort_or_limit w)) = tl (serial_in w) \<and>
   serial_in (snd (no_stop_no_limit w)) = tl (serial_in w) \<and>
   serial_in (snd (check_abort w)) = tl (serial_in w) \<and>
   (\<not> fst (abort_or_limit w) \<longrightarrow>
      home_loop (Suc n) c w =
        home_loop n (fst (status_tick c (snd (abort_or_limit w))))
          (delay 500 (snd (status_tick c (snd (abort_or_limit w)))))) \<and>
   (fst (no_stop_no_limit w) \<longrightarrow>
      run_loop (Suc n) c w =
        run_loop n (fst (status_tick c (delay 100 (snd (no_stop_no_limit w)))))
          (snd (status_tick c (delay 100 (snd (no_stop_no_limit w)))))) \<and>
   (fst (get_feedback_value w) < t \<and> c \<le> 0 \<and>
    \<not> fst (abort_or_limit (send_status (snd (get_feedback_value w)))) \<longrightarrow>
      coarse_fwd (Suc n) t c w =
        coarse_fwd n t 5
          (delay 100 (snd (abort_or_limit (send_status (snd (get_feedback_value w))))))) \<and>
   (fst (get_feedback_value w) > t \<and> c \<le> 0 \<and>
    \<not> fst (abort_or_limit (send_status (snd (get_feedback_value w)))) \<longrightarrow>
      coarse_rev (Suc n) t c w =
        coarse_rev n t 5
          (delay 100 (snd (abort_or_limit (send_status (snd (get_feedback_value w))))))) \<and>
   (fst (get_feedback_value w) > t \<and> fst (slack_poll w) \<longrightarrow>
      slack_loop (Suc n) t w = Some (True, setM1Speed 0 (snd (slack_poll w)))) \<and>
   (fst (get_feedback_value w) > t \<and> \<not> fst (slack_poll w) \<longrightarrow>
      slack_loop (Suc n) t w = slack_loop n t (snd (slack_poll w))) \<and>
   (1 < d \<and> 0 < a \<and> fst (fine_poll t w) \<longrightarrow> fine_loop t a d w = snd (fine_poll t w)) \<and>
   (1 < d \<and> 0 < a \<and> \<not> fst (fine_poll t w) \<longrightarrow>
      fine_loop t a d w = fine_loop t (a - 1) (fst (fine_pass t w)) (snd (fine_poll t w))) \<and>
   (fst (fine_poll t w) \<longleftrightarrow> pending (snd (fine_pass t w)) = Some (CHR ''z'')) \<and>
   serial_in (snd (fine_poll t w)) = tl (serial_in (snd (fine_pass t w)))"
proof (intro conjI impI)
  show "fst (abort_or_limit w) \<longleftrightarrow> pending w = Some (CHR ''z'') \<or> limit_now w"
    by (rule abort_or_limit_iff)
  show "fst (no_stop_no_limit w) \<longleftrightarrow> \<not> (pending w = Some (CHR ''e'') \<or> limit_now w)"
    by (rule no_stop_no_limit_iff)
  show "fst (check_abort w) \<longleftrightarrow> pending w = Some (CHR ''z'')"
    by (rule check_abort_iff)
  show "serial_in (snd (abort_or_limit w)) = tl (serial_in w)"
    by (rule serial_in_abort_or_limit)
  show "serial_in (snd (no_stop_no_limit w)) = tl (serial_in w)"
    by (rule serial_in_no_stop_no_limit)
  show "serial_in (snd (check_abort w)) = tl (serial_in w)"
    by (rule serial_in_check_abort)
  show "fst (fine_poll t w) \<longleftrightarrow> pending (snd (fine_pass t w)) = Some (CHR ''z'')"
    by (simp add: fine_poll_def check_abort_iff)
  show "serial_in (snd (fine_poll t w)) = tl (serial_in (snd (fine_pass t w)))"
    by (simp add: fine_poll_def serial_in_check_abort)
next
  assume "fst (abort_or_limit w)"
  then show "home_loop (Suc n) c w = Some (snd (abort_or_limit w))"
    by (simp only: home_loop_pass if_True if_False)
next
  assume "\<not> fst (no_stop_no_limit w)"
  then show "run_loop (Suc n) c w = Some (snd (no_stop_no_limit w))"
    by (simp only: run_loop_pass if_True if_False)
next
  assume "fst (get_feedback_value w) < t \<and> c \<le> 0 \<and>
    fst (abort_or_limit (send_status (snd (get_feedback_value w))))"
  then show "coarse_fwd (Suc n) t c w =
        Some (True, snd (abort_or_limit (send_status (snd (get_feedback_value w)))))"
    by (simp only: coarse_fwd_poll if_True if_False)
next
  assume "fst (get_feedback_value w) > t \<and> c \<le> 0 \<and>
    fst (abort_or_limit (send_status (snd (get_feedback_value w))))"
  then show "coarse_rev (Suc n) t c w =
        Some (True, setM1Speed 0 (snd (abort_or_limit (send_status (snd (get_feedback_value w))))))"
    by (simp only: coarse_rev_poll if_True if_False)
next
  assume "\<not> fst (abort_or_limit w)"
  then show "home_loop (Suc n) c w =
        home_loop n (fst (status_tick c (snd (abort_or_limit w))))
          (delay 500 (snd (status_tick c (snd (abort_or_limit w)))))"
    by (simp only: home_loop_pass if_True if_False)
next
  assume "fst (no_stop_no_limit w)"
  then show "run_loop (Suc n) c w =
        run_loop n (fst (status_tick c (delay 100 (snd (no_stop_no_limit w)))))
          (snd (status_tick c (delay 100 (snd (no_stop_no_limit w)))))"
    by (simp only: run_loop_pass if_True if_False)
next
  assume "fst (get_feedback_value w) < t \<and> c \<le> 0 \<and>
    \<not> fst (abort_or_limit (send_status (snd (get_feedback_value w))))"
  then show "coarse_fwd (Suc n) t c w =
        coarse_fwd n t 5
          (delay 100 (snd (abort_or_limit (send_status (snd (get_feedback_value w))))))"
    by (simp only: coarse_fwd_poll if_True if_False)
next
  assume "fst (get_feedback_value w) > t \<and> c \<le> 0 \<and>
    \<not> fst (abort_or_limit (send_status (snd (get_feedback_value w))))"
  then show "coarse_rev (Suc n) t c w =
        coarse_rev n t 5
          (delay 100 (snd (abort_or_limit (send_status (snd (get_feedback_value w))))))"
    by (simp only: coarse_rev_poll if_True if_False)
next
  assume "fst (get_feedback_value w) > t \<and> fst (slack_poll w)"
  then show "slack_loop (Suc n) t w = Some (True, setM1Speed 0 (snd (slack_poll w)))"
    by (simp only: slack_loop_pass if_True if_False)
next
  assume "fst (get_feedback_value w) > t \<and> \<not> fst (slack_poll w)"
  then show "slack_loop (Suc n) t w = slack_loop n t (snd (slack_poll w))"
    by (simp only: slack_loop_pass if_True if_False)
next
  assume "1 < d \<and> 0 < a \<and> fst (fine_poll t w)"
  then show "fine_loop t a d w = snd (fine_poll t w)"
    by (simp only: fine_loop_pass if_True if_False)
next
  assume "1 < d \<and> 0 < a \<and> \<not> fst (fine_poll t w)"
  then show "fine_loop t a d w = fine_loop t (a - 1) (fst (fine_pass t w)) (snd (fine_poll t w))"
    by (simp only: fine_loop_pass if_True if_False)
qed

text \<open>
  An abort frame arriving during a free run is read by the poll and the run goes on: ten
  polls later it has not returned. A stop frame arriving during a calibration run is read
  by the poll and the run goes on likewise.
\<close>

theorem polls_miss_a_signal_counterexample:
  "pending (boot\<lparr>serial_in := [Some ''z'']\<rparr>) = Some (CHR ''z'') \<and>
   fst (no_stop_no_limit (boot\<lparr>serial_in := [Some ''z'']\<rparr>)) = True \<and>
   serial_in (snd (no_stop_no_limit (boot\<lparr>serial_in := [Some ''z'']\<rparr>))) = [] \<and>
   move_fwd 10 (boot\<lparr>serial_in := [Some ''z'']\<rparr>) = None \<and>
   pending (boot\<lparr>serial_in := [Some ''e'']\<rparr>) = Some (CHR ''e'') \<and>
   fst (abort_or_limit (boot\<lparr>serial_in := [Some ''e'']\<rparr>)) = False \<and>
   go_home_or_max 10 HOME (boot\<lparr>serial_in := [Some ''e'']\<rparr>) = None"
  by code_simp

text \<open>
  The theorem at work: an abort ends the calibration loop, a stop ends the free run, an
  abort after the first reverse pulse ends the slack take-up with the motor stopped, an
  abort after the first correction pulse ends the correction loop with ten attempts left,
  and a stop frame in the same place is read and the correction goes on.
\<close>

theorem polls_check_two_signals_witness:
  "fst (abort_or_limit (boot\<lparr>serial_in := [Some ''z'']\<rparr>)) \<and>
   home_loop (Suc 0) 5 (boot\<lparr>serial_in := [Some ''z'']\<rparr>) =
     Some (snd (abort_or_limit (boot\<lparr>serial_in := [Some ''z'']\<rparr>))) \<and>
   \<not> fst (no_stop_no_limit (boot\<lparr>serial_in := [Some ''e'']\<rparr>)) \<and>
   run_loop (Suc 0) 5 (boot\<lparr>serial_in := [Some ''e'']\<rparr>) =
     Some (snd (no_stop_no_limit (boot\<lparr>serial_in := [Some ''e'']\<rparr>))) \<and>
   fst (get_feedback_value (stepper\<lparr>actuator := 4, serial_in := [Some ''z'']\<rparr>)) > 2 \<and>
   fst (slack_poll (stepper\<lparr>actuator := 4, serial_in := [Some ''z'']\<rparr>)) \<and>
   slack_loop (Suc 0) 2 (stepper\<lparr>actuator := 4, serial_in := [Some ''z'']\<rparr>) =
     Some (True, setM1Speed 0 (snd (slack_poll (stepper\<lparr>actuator := 4, serial_in := [Some ''z'']\<rparr>)))) \<and>
   fst (fine_poll 2 (stepper\<lparr>serial_in := [Some ''z'']\<rparr>)) \<and>
   fine_loop 2 10 2 (stepper\<lparr>serial_in := [Some ''z'']\<rparr>) =
     snd (fine_poll 2 (stepper\<lparr>serial_in := [Some ''z'']\<rparr>)) \<and>
   pulses (trace (fine_loop 2 10 2 (stepper\<lparr>serial_in := [Some ''z'']\<rparr>))) = 1 \<and>
   fst (fine_poll 2 (stepper\<lparr>serial_in := [Some ''e'']\<rparr>)) = False \<and>
   serial_in (snd (fine_poll 2 (stepper\<lparr>serial_in := [Some ''e'']\<rparr>))) = [] \<and>
   fine_loop 2 10 2 (stepper\<lparr>serial_in := [Some ''e'']\<rparr>) =
     fine_loop 2 9 (fst (fine_pass 2 (stepper\<lparr>serial_in := [Some ''e'']\<rparr>)))
       (snd (fine_poll 2 (stepper\<lparr>serial_in := [Some ''e'']\<rparr>)))"
proof -
  let ?z = "boot\<lparr>serial_in := [Some ''z'']\<rparr>"
  let ?e = "boot\<lparr>serial_in := [Some ''e'']\<rparr>"
  let ?s = "stepper\<lparr>actuator := 4, serial_in := [Some ''z'']\<rparr>"
  let ?f = "stepper\<lparr>serial_in := [Some ''z'']\<rparr>"
  let ?g = "stepper\<lparr>serial_in := [Some ''e'']\<rparr>"
  have a: "fst (abort_or_limit ?z)" by code_simp
  have b: "\<not> fst (no_stop_no_limit ?e)" by code_simp
  have s: "fst (get_feedback_value ?s) > 2 \<and> fst (slack_poll ?s)" by code_simp
  have f: "fst (fine_poll 2 ?f)" by code_simp
  have p: "pulses (trace (snd (fine_poll 2 ?f))) = 1" by code_simp
  have g: "fst (fine_poll 2 ?g) = False" by code_simp
  have g': "serial_in (snd (fine_poll 2 ?g)) = []" by code_simp
  note t1 = polls_check_two_signals [of ?z 0 5 0 1 0]
  note t2 = polls_check_two_signals [of ?e 0 5 0 1 0]
  note t3 = polls_check_two_signals [of ?s 0 5 2 1 0]
  note t4 = polls_check_two_signals [of ?f 0 5 2 2 10]
  note t5 = polls_check_two_signals [of ?g 0 5 2 2 10]
  have 1: "home_loop (Suc 0) 5 ?z = Some (snd (abort_or_limit ?z))" using t1 a by blast
  have 2: "run_loop (Suc 0) 5 ?e = Some (snd (no_stop_no_limit ?e))" using t2 b by blast
  have 3: "slack_loop (Suc 0) 2 ?s = Some (True, setM1Speed 0 (snd (slack_poll ?s)))"
    using t3 s by blast
  have 4: "fine_loop 2 10 2 ?f = snd (fine_poll 2 ?f)" using t4 f by simp
  have 5: "fine_loop 2 10 2 ?g = fine_loop 2 9 (fst (fine_pass 2 ?g)) (snd (fine_poll 2 ?g))"
    using t5 g by simp
  show ?thesis using a b s f g g' 1 2 3 4 5 p by simp
qed

subsection \<open>The calibration run\<close>

lemma abort_or_limit_cause:
  assumes "abort_or_limit w = (True, w')"
  shows "(\<exists>d. Some d \<in> set (serial_in w) \<and> cmd_char d = CHR ''z'') \<or>
         (home_limit w \<noteq> -1 \<and> max_limit w \<noteq> -1 \<and>
          (fb_val w' < home_limit w + 2 \<or> fb_val w' > max_limit w - 2))"
proof (cases "fst (check_abort w)")
  case True
  then show ?thesis
    by (auto simp: check_abort_def serial_poll_def split: list.splits option.splits)
next
  case False
  obtain w1 where c: "check_abort w = (False, w1)"
    using False by (cases "check_abort w") auto
  have l: "check_limit w1 = (True, w')"
    using assms c by (simp add: abort_or_limit_def)
  have "home_limit w1 = home_limit w" "max_limit w1 = max_limit w"
    using evolves_check_abort [OF c] by (simp_all add: evolves_def)
  moreover have "home_limit w1 \<noteq> -1 \<and> max_limit w1 \<noteq> -1 \<and>
      (fb_val w' < home_limit w1 + 2 \<or> fb_val w' > max_limit w1 - 2)"
  proof -
    obtain v w2 where g: "get_feedback_value w1 = (v, w2)" by (cases "get_feedback_value w1")
    have "home_limit w2 = home_limit w1" "max_limit w2 = max_limit w1"
      using evolves_get [OF g] by (simp_all add: evolves_def)
    then show ?thesis
      using l g by (auto simp: check_limit_def Let_def split: if_splits)
  qed
  ultimately show ?thesis by simp
qed

lemma fb_val_delay [simp]: "fb_val (delay ms w) = fb_val w"
  by (simp add: delay_def)

lemma fb_val_setM1Speed [simp]: "fb_val (setM1Speed s w) = fb_val w"
  by (simp add: setM1Speed_def)

lemma home_loop_cause:
  "home_loop n c w = Some w' \<Longrightarrow>
   (\<exists>d. Some d \<in> set (serial_in w) \<and> cmd_char d = CHR ''z'') \<or>
   (home_limit w \<noteq> -1 \<and> max_limit w \<noteq> -1 \<and>
    (fb_val w' < home_limit w + 2 \<or> fb_val w' > max_limit w - 2))"
proof (induction n arbitrary: c w)
  case 0
  then show ?case by simp
next
  case (Suc n)
  obtain e w1 where a: "abort_or_limit w = (e, w1)" by (cases "abort_or_limit w")
  show ?case
  proof (cases e)
    case True
    then have "abort_or_limit w = (True, w')" using Suc.prems a by simp
    then show ?thesis by (rule abort_or_limit_cause)
  next
    case False
    obtain c' w2 where t: "status_tick c w1 = (c', w2)" by (cases "status_tick c w1")
    have run: "home_loop n c' (delay 500 w2) = Some w'"
      using Suc.prems a t False by simp
    have "evolves w w1" using a by (rule evolves_abort_or_limit)
    also have "evolves w1 w2" using t by (rule evolves_status_tick)
    also have "evolves w2 (delay 500 w2)" by simp
    finally have ev: "evolves w (delay 500 w2)" .
    then have "set (serial_in (delay 500 w2)) \<subseteq> set (serial_in w)"
      by (simp add: evolves_def set_mono_suffix)
    moreover have "home_limit (delay 500 w2) = home_limit w" "max_limit (delay 500 w2) = max_limit w"
      using ev by (simp_all add: evolves_def)
    ultimately show ?thesis using Suc.IH [OF run] by auto
  qed
qed

text \<open>
  What ends the calibration run of the current sketch: its loop polls
  \<open>check_abort() || check_limit()\<close>, and \<open>check_limit\<close> is the soft-limit check. So
  when the run returns TRUE, either an abort frame was among the frames on the serial
  line, or both soft limits are configured and the last sample taken (\<open>fb_val\<close>) is
  below \<open>home_limit + 2\<close> or above \<open>max_limit - 2\<close>.
\<close>

lemma go_home_or_max_cause:
  assumes "go_home_or_max n pos w = Some (True, w')"
  shows "motor w' = 0 \<and>
         ((\<exists>d. Some d \<in> set (serial_in w) \<and> cmd_char d = CHR ''z'') \<or>
          (home_limit w \<noteq> -1 \<and> max_limit w \<noteq> -1 \<and>
           (fb_val w' < home_limit w + 2 \<or> fb_val w' > max_limit w - 2)))"
proof -
  define speed where "speed = (if pos = HOME then - current_speed w else current_speed w)"
  obtain f w1 where g: "getFault (setM1Speed speed w) = (f, w1)"
    by (cases "getFault (setM1Speed speed w)")
  have nf: "\<not> f"
    using assms g by (auto simp: go_home_or_max_def speed_def)
  then obtain w2 where h: "home_loop n 5 (delay 100 w1) = Some w2"
    and w': "w' = setM1Speed 0 (delay 100 w2)"
    using assms g by (auto simp: go_home_or_max_def speed_def split: option.splits)
  have "evolves w (setM1Speed speed w)" by simp
  also have "evolves \<dots> w1" using g by (rule evolves_getFault)
  also have "evolves w1 (delay 100 w1)" by simp
  finally have ev: "evolves w (delay 100 w1)" .
  then have "set (serial_in (delay 100 w1)) \<subseteq> set (serial_in w)"
    by (simp add: evolves_def set_mono_suffix)
  moreover have "home_limit (delay 100 w1) = home_limit w" "max_limit (delay 100 w1) = max_limit w"
    using ev by (simp_all add: evolves_def)
  ultimately have "(\<exists>d. Some d \<in> set (serial_in w) \<and> cmd_char d = CHR ''z'') \<or>
          (home_limit w \<noteq> -1 \<and> max_limit w \<noteq> -1 \<and>
           (fb_val w2 < home_limit w + 2 \<or> fb_val w2 > max_limit w - 2))"
    using home_loop_cause [OF h] by auto
  then show ?thesis by (auto simp: w')
qed

text \<open>
  C4. The calibration run of the current sketch has lost the stability counter that its
  comments still describe and that the earlier sketch has. With the actuator stalled at
  500 and no soft limit configured, the run never returns, however many polls it is
  given (every one sees the same sample), where the run of the earlier sketch stops the
  motor and returns TRUE after six waits of 500 ms. And the current run does consult the
  soft limits: with \<open>home_limit\<close> 499 and \<open>max_limit\<close> 900 configured it returns at
  its first poll.
\<close>

theorem calibration_misses_stall:
  "(\<forall>n. go_home_or_max n HOME (boot\<lparr>actuator := 500\<rparr>) = None) \<and>
   map_option (\<lambda>(r, w'). (r, trace w', motor w'))
     (go_home_or_max_earlier 20 HOME (boot\<lparr>actuator := 500\<rparr>)) =
     Some (True, [SetSpeed (- 200), Delay 100, Delay 500, Delay 500, Delay 500, Delay 500,
                  Delay 500, Delay 500, Delay 100, SetSpeed 0], 0) \<and>
   map_option (\<lambda>(r, w'). (r, trace w', motor w'))
     (go_home_or_max 20 HOME (boot\<lparr>home_limit := 499, max_limit := 900, actuator := 500\<rparr>)) =
     Some (True, [SetSpeed (- 200), Delay 100, Delay 100, SetSpeed 0], 0)"
proof (intro conjI allI)
  fix n
  show "go_home_or_max n HOME (boot\<lparr>actuator := 500\<rparr>) = None"
  proof (cases "go_home_or_max n HOME (boot\<lparr>actuator := 500\<rparr>)")
    case None
    then show ?thesis .
  next
    case (Some r)
    obtain b w' where r: "r = (b, w')" by (cases r)
    have "b" using Some r
      by (auto simp: go_home_or_max_def getFault_def setM1Speed_def boot_def
               split: option.splits)
    then have "go_home_or_max n HOME (boot\<lparr>actuator := 500\<rparr>) = Some (True, w')"
      using Some r by simp
    from go_home_or_max_cause [OF this] show ?thesis by (simp add: boot_def)
  qed
next
  show "map_option (\<lambda>(r, w'). (r, trace w', motor w'))
     (go_home_or_max_earlier 20 HOME (boot\<lparr>actuator := 500\<rparr>)) =
     Some (True, [SetSpeed (- 200), Delay 100, Delay 500, Delay 500, Delay 500, Delay 500,
                  Delay 500, Delay 500, Delay 100, SetSpeed 0], 0)"
    by code_simp
next
  show "map_option (\<lambda>(r, w'). (r, trace w', motor w'))
     (go_home_or_max 20 HOME (boot\<lparr>home_limit := 499, max_limit := 900, actuator := 500\<rparr>)) =
     Some (True, [SetSpeed (- 200), Delay 100, Delay 100, SetSpeed 0], 0)"
    by code_simp
qed

subsection \<open>An abort during the coarse approach\<close>

lemma trace_send_status [simp]: "trace (send_status w) = trace w"
  by (simp add: send_status_def get_feedback_value_def analogRead_def serial_print_def
           split: prod.splits list.splits)

lemma trace_print_value [simp]: "trace (print_value l w) = trace w"
  by (simp add: print_value_def get_feedback_value_def analogRead_def serial_print_def
           split: prod.splits list.splits)

lemma serial_out_send_status:
  "serial_out (send_status w) =
     serial_out w @ [Str ''Status: '', Num (fst (get_feedback_value w)), Str '';'']"
  by (simp add: send_status_def get_feedback_value_def analogRead_def serial_print_def
           split: prod.splits list.splits)

lemma serial_out_print_value:
  "serial_out (print_value l w) =
     serial_out w @ [Str l, Num (fst (get_feedback_value w)), Str '';'']"
  by (simp add: print_value_def get_feedback_value_def analogRead_def serial_print_def
           split: prod.splits list.splits)

lemma serial_out_setM1Speed [simp]: "serial_out (setM1Speed s w) = serial_out w"
  by (simp add: setM1Speed_def)

lemma finish_at_end:
  "finish n t True w = Some (True, delay 500 (send_status (setM1Speed 0 w)))"
  by (simp add: finish_def)

text \<open>
  C2, as the code has it. When the coarse loop of a move ends with \<open>end\<close> set (its poll
  saw an abort frame or a soft limit), the next call to the driver is
  \<open>md.setM1Speed(0)\<close> with no delay before it, the correction phase is skipped and
  \<open>move_to_feedback_value\<close> returns TRUE as for a completed move, with \<open>current_speed\<close>
  as before. The dispatcher therefore prints \<open>MoveTo: <pos>;\<close> after the final status
  frame.
\<close>

theorem abort_in_coarse_phase:
  assumes "start_move t w = (False, dir, w1)" and "coarse n dir t w1 = Some (True, w2)"
  shows "\<exists>w3. move_to_feedback_value n t w = Some (True, w3) \<and>
           happened w2 w3 = [SetSpeed 0, Delay 500] \<and> motor w3 = 0 \<and>
           current_speed w3 = current_speed w \<and>
           (cmd_char data = CHR ''m'' \<and> parse_int data 2 = t \<longrightarrow>
              (\<exists>w4 v v'. process n data w = Some w4 \<and>
                 printed w2 w4 =
                   [Str ''Status: '', Num v, Str '';'', Str ''MoveTo: '', Num v', Str '';'']))"
proof -
  define w3 where "w3 = delay 500 (send_status (setM1Speed 0 w2))"
  have m: "move_to_feedback_value n t w = Some (True, w3)"
    using assms by (simp add: move_to_feedback_value_def finish_at_end w3_def)
  have h: "happened w2 w3 = [SetSpeed 0, Delay 500]"
    by (simp add: happened_def w3_def delay_def setM1Speed_def)
  have sp: "current_speed w3 = current_speed w" "motor w3 = 0"
    using move_to_result [OF m] by (simp_all add: evolves_def)
  have out3: "serial_out w3 =
      serial_out w2 @ [Str ''Status: '', Num (fst (get_feedback_value (setM1Speed 0 w2))), Str '';'']"
    by (simp add: w3_def serial_out_send_status)
  have "cmd_char data = CHR ''m'' \<and> parse_int data 2 = t \<longrightarrow>
      process n data w = Some (print_value ''MoveTo: '' w3)"
    using m by (simp add: process_def)
  moreover have "printed w2 (print_value ''MoveTo: '' w3) =
      [Str ''Status: '', Num (fst (get_feedback_value (setM1Speed 0 w2))), Str '';'',
       Str ''MoveTo: '', Num (fst (get_feedback_value w3)), Str '';'']"
    by (simp add: printed_def serial_out_print_value out3)
  ultimately show ?thesis using m h sp by blast
qed

text \<open>
  The frame \<open>m,800.\<close> with the actuator at 700 and an abort frame waiting: the sixth pass
  of the coarse loop polls, reads the abort at 720 and stops the motor; the dispatcher
  still prints \<open>MoveTo: 720;\<close>.
\<close>

theorem abort_still_replies_counterexample:
  "map_option (\<lambda>w'. (serial_out w', trace w', serial_in w', motor w'))
     (process 10 ''m,800.'' (stepper\<lparr>actuator := 700, serial_in := [Some ''z'']\<rparr>)) =
   Some ([Str ''Status: '', Num 700, Str '';'', Str ''Status: '', Num 720, Str '';'',
          Str ''Status: '', Num 720, Str '';'', Str ''MoveTo: '', Num 720, Str '';''],
         [SetSpeed 200, Delay 100, Delay 100, Delay 100, Delay 100, Delay 100,
          SetSpeed 0, Delay 500],
         [], 0)"
  by code_simp

theorem abort_in_coarse_phase_witness:
  "\<exists>w1 w2 w3 w4 v v'.
     start_move 800 (stepper\<lparr>actuator := 700, serial_in := [Some ''z'']\<rparr>) = (False, FORWARD, w1) \<and>
     coarse 10 FORWARD 800 w1 = Some (True, w2) \<and>
     move_to_feedback_value 10 800 (stepper\<lparr>actuator := 700, serial_in := [Some ''z'']\<rparr>)
       = Some (True, w3) \<and>
     happened w2 w3 = [SetSpeed 0, Delay 500] \<and> motor w3 = 0 \<and>
     process 10 ''m,800.'' (stepper\<lparr>actuator := 700, serial_in := [Some ''z'']\<rparr>) = Some w4 \<and>
     printed w2 w4 = [Str ''Status: '', Num v, Str '';'', Str ''MoveTo: '', Num v', Str '';'']"
proof -
  let ?w = "stepper\<lparr>actuator := 700, serial_in := [Some ''z'']\<rparr>"
  have "fst (start_move 800 ?w) = False \<and> fst (snd (start_move 800 ?w)) = FORWARD"
    by code_simp
  then obtain w1 where s: "start_move 800 ?w = (False, FORWARD, w1)"
    by (cases "start_move 800 ?w") auto
  have "map_option fst (coarse 10 FORWARD 800 (snd (snd (start_move 800 ?w)))) = Some True"
    by code_simp
  then obtain w2 where c: "coarse 10 FORWARD 800 w1 = Some (True, w2)"
    using s by auto
  have d: "cmd_char ''m,800.'' = CHR ''m'' \<and> parse_int ''m,800.'' 2 = 800"
    by (simp add: cmd_char_def parse_int_def to_int_def toInt_def is_space_def is_digit_def)
  from abort_in_coarse_phase [OF s c, of "''m,800.''"] d s c show ?thesis by blast
qed

subsection \<open>Arguments that do not parse\<close>

lemma digits_no_digit: "\<not> list_ex is_digit s \<Longrightarrow> digits acc s = acc"
  by (cases s) auto

lemma toInt_no_digit:
  assumes "\<not> list_ex is_digit s"
  shows "toInt s = 0"
proof -
  have "set (dropWhile is_space s) \<subseteq> set s"
    by (rule set_dropWhileD [THEN subsetI])
  then have nd: "\<not> list_ex is_digit (dropWhile is_space s)"
    using assms by (auto simp: list_ex_iff)
  show ?thesis
  proof (cases "dropWhile is_space s")
    case Nil
    show ?thesis unfolding toInt_def Nil by simp
  next
    case (Cons c cs)
    then have "\<not> is_digit c" "\<not> list_ex is_digit cs"
      using nd by simp_all
    then show ?thesis
      unfolding toInt_def Cons by (simp add: digits_no_digit)
  qed
qed

lemma parse_int_no_digit:
  "\<not> list_ex is_digit (collect (drop start_at data)) \<Longrightarrow> parse_int data start_at = 0"
  by (simp add: parse_int_def to_int_def toInt_no_digit)

lemma parse_int_zero_frame: "parse_int (c # '',000.'') 2 = 0"
  by (simp add: parse_int_def to_int_def toInt_def is_space_def is_digit_def)

lemma process_cong:
  assumes "cmd_char d1 = cmd_char d2" and "parse_int d1 2 = parse_int d2 2"
  shows "process n d1 w = process n d2 w"
  unfolding process_def assms by (rule refl)

lemma quiet_refl [simp]: "quiet w w"
  by (simp add: quiet_def printed_def)

lemma quiet_trans: "quiet a b \<Longrightarrow> quiet b c \<Longrightarrow> quiet a c"
  unfolding quiet_def
  using printed_trans [of a b c] prefix_order.trans [of "serial_out a" "serial_out b" "serial_out c"]
  by auto

lemma evolves_quiet: "evolves w w' \<Longrightarrow> quiet w w'"
  by (auto simp: evolves_def quiet_def list_all_iff)

lemma quiet_print: "quiet w w1 \<Longrightarrow> t \<noteq> Str ''Bad cmd!;'' \<Longrightarrow> quiet w (serial_print t w1)"
proof -
  assume q: "quiet w w1" and t: "t \<noteq> Str ''Bad cmd!;''"
  have "quiet w1 (serial_print t w1)"
    using t by (simp add: quiet_def printed_def serial_print_def)
  with q show ?thesis by (rule quiet_trans)
qed

lemma quiet_print_value:
  "quiet w w1 \<Longrightarrow> l \<noteq> ''Bad cmd!;'' \<Longrightarrow> quiet w (print_value l w1)"
proof -
  assume q: "quiet w w1" and l: "l \<noteq> ''Bad cmd!;''"
  have "quiet w1 (print_value l w1)"
    using l by (simp add: quiet_def printed_def serial_out_print_value)
  with q show ?thesis by (rule quiet_trans)
qed

lemma evolves_go_home_or_max: "go_home_or_max n pos w = Some (r, w') \<Longrightarrow> evolves w w'"
proof -
  assume a: "go_home_or_max n pos w = Some (r, w')"
  define speed where "speed = (if pos = HOME then - current_speed w else current_speed w)"
  obtain f w1 where g: "getFault (setM1Speed speed w) = (f, w1)"
    by (cases "getFault (setM1Speed speed w)")
  have "evolves w (setM1Speed speed w)" by simp
  also have "evolves \<dots> w1" using g by (rule evolves_getFault)
  finally have e1: "evolves w w1" .
  show ?thesis
  proof (cases f)
    case True
    then have "w' = setM1Speed 0 w1" using a g by (simp add: go_home_or_max_def speed_def)
    then show ?thesis using e1 evolves_setM1Speed evolves_trans by blast
  next
    case False
    then obtain w2 where h: "home_loop n 5 (delay 100 w1) = Some w2"
      and w': "w' = setM1Speed 0 (delay 100 w2)"
      using a g by (auto simp: go_home_or_max_def speed_def split: option.splits)
    note e1
    also have "evolves w1 (delay 100 w1)" by simp
    also have "evolves \<dots> w2" using h by (rule evolves_home_loop)
    also have "evolves w2 (delay 100 w2)" by simp
    also have "evolves \<dots> w'" unfolding w' by simp
    finally show ?thesis .
  qed
qed

lemma evolves_move_fwd: "move_fwd n w = Some (r, w') \<Longrightarrow> evolves w w'"
proof -
  assume a: "move_fwd n w = Some (r, w')"
  obtain f w1 where g: "getFault (setM1Speed (current_speed w) w) = (f, w1)"
    by (cases "getFault (setM1Speed (current_speed w) w)")
  have "evolves w (setM1Speed (current_speed w) w)" by simp
  also have "evolves \<dots> w1" using g by (rule evolves_getFault)
  finally have e1: "evolves w w1" .
  show ?thesis
  proof (cases f)
    case True
    then have "w' = setM1Speed 0 w1" using a g by (simp add: move_fwd_def)
    then show ?thesis using e1 evolves_setM1Speed evolves_trans by blast
  next
    case False
    then obtain w2 where h: "run_loop n 5 w1 = Some w2" and w': "w' = setM1Speed 0 w2"
      using a g by (auto simp: move_fwd_def split: option.splits)
    note e1
    also have "evolves w1 w2" using h by (rule evolves_run_loop)
    also have "evolves w2 w'" unfolding w' by simp
    finally show ?thesis .
  qed
qed

lemma evolves_move_rev: "move_rev n w = Some (r, w') \<Longrightarrow> evolves w w'"
proof -
  assume a: "move_rev n w = Some (r, w')"
  obtain f w1 where g: "getFault (setM1Speed (- current_speed w) w) = (f, w1)"
    by (cases "getFault (setM1Speed (- current_speed w) w)")
  have "evolves w (setM1Speed (- current_speed w) w)" by simp
  also have "evolves \<dots> w1" using g by (rule evolves_getFault)
  finally have e1: "evolves w w1" .
  show ?thesis
  proof (cases f)
    case True
    then have "w' = setM1Speed 0 w1" using a g by (simp add: move_rev_def)
    then show ?thesis using e1 evolves_setM1Speed evolves_trans by blast
  next
    case False
    then obtain w2 where h: "run_loop n 5 (delay 300 w1) = Some w2" and w': "w' = setM1Speed 0 w2"
      using a g by (auto simp: move_rev_def split: option.splits)
    note e1
    also have "evolves w1 (delay 300 w1)" by simp
    also have "evolves \<dots> w2" using h by (rule evolves_run_loop)
    also have "evolves w2 w'" unfolding w' by simp
    finally show ?thesis .
  qed
qed

lemma quiet_setter:
  "quiet w (w\<lparr>rly_pin := b\<rparr>)" "quiet w (w\<lparr>home_limit := v\<rparr>)"
  "quiet w (w\<lparr>max_limit := v\<rparr>)" "quiet w (w\<lparr>current_speed := v\<rparr>)"
  by (simp_all add: quiet_def printed_def)

lemma quiet_move_ms: "move_ms ms dir w = (r, w') \<Longrightarrow> quiet w w'"
  by (rule evolves_quiet, erule evolves_move_ms)

lemma process_known:
  assumes kn: "known_cmd (cmd_char data)" and pr: "process n data w = Some w'"
  shows "quiet w w'"
proof -
  consider (c_a) "cmd_char data = CHR ''a''" | (c_b) "cmd_char data = CHR ''b''"
    | (c_c) "cmd_char data = CHR ''c''" | (c_d) "cmd_char data = CHR ''d''"
    | (c_e) "cmd_char data = CHR ''e''" | (c_f) "cmd_char data = CHR ''f''"
    | (c_h) "cmd_char data = CHR ''h''" | (c_j) "cmd_char data = CHR ''j''"
    | (c_k) "cmd_char data = CHR ''k''" | (c_m) "cmd_char data = CHR ''m''"
    | (c_p) "cmd_char data = CHR ''p''" | (c_r) "cmd_char data = CHR ''r''"
    | (c_s) "cmd_char data = CHR ''s''" | (c_v) "cmd_char data = CHR ''v''"
    | (c_w) "cmd_char data = CHR ''w''" | (c_x) "cmd_char data = CHR ''x''"
    | (c_y) "cmd_char data = CHR ''y''" | (c_z) "cmd_char data = CHR ''z''"
    using kn by (auto simp: known_cmd_def)
  then show ?thesis
  proof cases
    case c_a
    then show ?thesis using pr
      by (auto simp: process_def Let_def reply_def intro!: quiet_print quiet_setter)
  next
    case c_b
    then show ?thesis using pr
      by (auto simp: process_def Let_def reply_def intro!: quiet_print quiet_setter)
  next
    case c_c
    then obtain r w1 where o: "move_fwd n w = Some (r, w1)" and w': "w' = serial_print (Str ''RunFwd;'') w1"
      using pr by (auto simp: process_def Let_def reply_def split: option.splits)
    have "quiet w w1" using o by (rule evolves_quiet [OF evolves_move_fwd])
    then show ?thesis unfolding w' by (rule quiet_print) simp
  next
    case c_d
    then obtain r w1 where o: "move_rev n w = Some (r, w1)" and w': "w' = serial_print (Str ''RunRev;'') w1"
      using pr by (auto simp: process_def Let_def reply_def split: option.splits)
    have "quiet w w1" using o by (rule evolves_quiet [OF evolves_move_rev])
    then show ?thesis unfolding w' by (rule quiet_print) simp
  next
    case c_e
    then have w': "w' = serial_print (Str ''StopRun;'') (setM1Speed 0 w)"
      using pr by (simp add: process_def Let_def reply_def stop_move_def)
    have "quiet w (setM1Speed 0 w)" by (rule evolves_quiet) simp
    then show ?thesis unfolding w' by (rule quiet_print) simp
  next
    case c_f
    obtain r w1 where o: "move_ms 20 FORWARD w = (r, w1)" by (cases "move_ms 20 FORWARD w")
    have q: "quiet w w1" using o by (rule quiet_move_ms)
    have "w' = serial_print (Str ''NudgeFwd;'') w1 \<or>
          w' = serial_print (Str [CHR 0x0D, CHR 0x0A]) (serial_print (Str ''Motor fault on nudge!;'') w1)"
      using pr c_f o by (auto simp: process_def Let_def reply_def split: if_splits)
    then show ?thesis using q by (auto intro!: quiet_print)
  next
    case c_h
    then obtain r w1 where o: "go_home_or_max n HOME w = Some (r, w1)"
      and w': "w' = serial_print (Str ''Home;'')
                 (if \<not> r then serial_print (Str ''Motor fault;'') w1 else w1)"
      using pr by (auto simp: process_def Let_def reply_def split: option.splits)
    have "quiet w w1" using o by (rule evolves_quiet [OF evolves_go_home_or_max])
    then have "quiet w (if \<not> r then serial_print (Str ''Motor fault;'') w1 else w1)"
      by (simp add: quiet_print)
    then show ?thesis unfolding w' by (rule quiet_print) simp
  next
    case c_j
    then show ?thesis using pr
      by (auto simp: process_def Let_def reply_def intro!: quiet_print quiet_setter)
  next
    case c_k
    then show ?thesis using pr
      by (auto simp: process_def Let_def reply_def intro!: quiet_print quiet_setter)
  next
    case c_m
    then obtain r w1 where o: "move_to_feedback_value n (parse_int data 2) w = Some (r, w1)"
      and w': "w' = (if r then print_value ''MoveTo: '' w1
                     else serial_print (Str ''Motor fault on move!;'') w1)"
      using pr by (auto simp: process_def Let_def reply_def split: option.splits if_splits)
    have "quiet w w1" using move_to_result [OF o] by (simp add: evolves_quiet)
    then show ?thesis unfolding w' by (simp add: quiet_print quiet_print_value)
  next
    case c_p
    then have "w' = print_value ''Pos: '' w" using pr by (simp add: process_def Let_def)
    then show ?thesis by (simp add: quiet_print_value)
  next
    case c_r
    obtain r w1 where o: "move_ms 20 REVERSE w = (r, w1)" by (cases "move_ms 20 REVERSE w")
    have q: "quiet w w1" using o by (rule quiet_move_ms)
    have "w' = serial_print (Str ''NudgeRev;'') w1 \<or> w' = serial_print (Str ''Motor fault on nudge!;'') w1"
      using pr c_r o by (auto simp: process_def Let_def reply_def split: if_splits)
    then show ?thesis using q by (auto intro!: quiet_print)
  next
    case c_s
    then show ?thesis using pr
      by (auto simp: process_def Let_def reply_def intro!: quiet_print quiet_setter)
  next
    case c_v
    obtain r w1 where o: "move_ms (parse_int data 2) REVERSE w = (r, w1)" by (cases "move_ms (parse_int data 2) REVERSE w")
    have q: "quiet w w1" using o by (rule quiet_move_ms)
    have "w' = serial_print (Str ''msRev;'') w1 \<or> w' = serial_print (Str ''Motor fault on reverse ms!;'') w1"
      using pr c_v o by (auto simp: process_def Let_def reply_def split: if_splits)
    then show ?thesis using q by (auto intro!: quiet_print)
  next
    case c_w
    obtain r w1 where o: "move_ms (parse_int data 2) FORWARD w = (r, w1)" by (cases "move_ms (parse_int data 2) FORWARD w")
    have q: "quiet w w1" using o by (rule quiet_move_ms)
    have "w' = serial_print (Str ''msFwd;'') w1 \<or> w' = serial_print (Str ''Motor fault on forward ms!;'') w1"
      using pr c_w o by (auto simp: process_def Let_def reply_def split: if_splits)
    then show ?thesis using q by (auto intro!: quiet_print)
  next
    case c_x
    then obtain r w1 where o: "go_home_or_max n MAX_pos w = Some (r, w1)"
      and w': "w' = serial_print (Str ''Max;'')
                 (if \<not> r then serial_print (Str ''Motor fault;'') w1 else w1)"
      using pr by (auto simp: process_def Let_def reply_def split: option.splits)
    have "quiet w w1" using o by (rule evolves_quiet [OF evolves_go_home_or_max])
    then have "quiet w (if \<not> r then serial_print (Str ''Motor fault;'') w1 else w1)"
      by (simp add: quiet_print)
    then show ?thesis unfolding w' by (rule quiet_print) simp
  next
    case c_y
    then show ?thesis using pr by (auto simp: process_def Let_def reply_def intro!: quiet_print)
  next
    case c_z
    then show ?thesis using pr by (auto simp: process_def Let_def)
  qed
qed

lemma process_unknown:
  "\<not> known_cmd (cmd_char data) \<Longrightarrow>
   process n data w = Some (serial_print (Str ''Bad cmd!;'') w)"
  by (simp add: known_cmd_def process_def reply_def)

text \<open>
  C8. When the text between the comma and the first \<open>.\<close> of a frame holds no digit,
  \<open>parse_int\<close> returns 0 and the frame is processed exactly as the frame of the same
  command with the argument \<open>000\<close>: it is not rejected. The response \<open>Bad cmd!;\<close> is
  printed for a frame exactly when its command character is not one of the eighteen
  that \<open>process\<close> has a case for.
\<close>

theorem unparsable_argument_is_zero:
  "(\<not> list_ex is_digit (collect (drop 2 data)) \<longrightarrow>
      parse_int data 2 = 0 \<and> parse_int (cmd_char data # '',000.'') 2 = 0 \<and>
      process n data w = process n (cmd_char data # '',000.'') w) \<and>
   (process n data w = Some w' \<longrightarrow>
      (Str ''Bad cmd!;'' \<in> set (printed w w') \<longleftrightarrow> \<not> known_cmd (cmd_char data)))"
proof (intro conjI impI)
  assume nd: "\<not> list_ex is_digit (collect (drop 2 data))"
  then show z: "parse_int data 2 = 0" by (rule parse_int_no_digit)
  show z': "parse_int (cmd_char data # '',000.'') 2 = 0" by (rule parse_int_zero_frame)
  show "process n data w = process n (cmd_char data # '',000.'') w"
  proof (rule process_cong)
    show "cmd_char data = cmd_char (cmd_char data # '',000.'')"
      by (simp add: cmd_char_def)
    show "parse_int data 2 = parse_int (cmd_char data # '',000.'') 2"
      by (simp add: z z')
  qed
next
  assume p: "process n data w = Some w'"
  show "Str ''Bad cmd!;'' \<in> set (printed w w') \<longleftrightarrow> \<not> known_cmd (cmd_char data)"
  proof (cases "known_cmd (cmd_char data)")
    case True
    then show ?thesis using process_known [OF True p] by (simp add: quiet_def)
  next
    case False
    then have "w' = serial_print (Str ''Bad cmd!;'') w"
      using p by (simp add: process_unknown)
    then show ?thesis using False by (simp add: printed_def serial_print_def)
  qed
qed

theorem unparsable_argument_is_zero_witness:
  "\<not> list_ex is_digit (collect (drop 2 ''s,fast.'')) \<and> parse_int ''s,fast.'' 2 = 0 \<and>
   process 0 ''s,fast.'' boot = process 0 ''s,000.'' boot \<and>
   map_option current_speed (process 0 ''s,fast.'' boot) = Some 0 \<and>
   (\<exists>w'. process 0 ''s,fast.'' boot = Some w' \<and> Str ''Bad cmd!;'' \<notin> set (printed boot w')) \<and>
   (\<exists>w'. process 0 ''q,12345.'' boot = Some w' \<and> Str ''Bad cmd!;'' \<in> set (printed boot w'))"
proof -
  have nd: "\<not> list_ex is_digit (collect (drop 2 ''s,fast.''))"
    by (simp add: is_digit_def)
  have c: "cmd_char ''s,fast.'' = CHR ''s''" by (simp add: cmd_char_def)
  have s: "map_option current_speed (process 0 ''s,000.'' boot) = Some 0"
    by (simp add: process_def cmd_char_def parse_int_zero_frame reply_def serial_print_def)
  then obtain w1 where p1: "process 0 ''s,000.'' boot = Some w1" by auto
  have k1: "known_cmd (cmd_char ''s,fast.'')" by (simp add: known_cmd_def cmd_char_def)
  obtain w2 where p2: "process 0 ''q,12345.'' boot = Some w2"
    by (simp add: process_def cmd_char_def reply_def)
  have k2: "\<not> known_cmd (cmd_char ''q,12345.'')" by (simp add: known_cmd_def cmd_char_def)
  have u1: "parse_int ''s,fast.'' 2 = 0 \<and> process 0 ''s,fast.'' boot = process 0 ''s,000.'' boot"
    using unparsable_argument_is_zero [of "''s,fast.''" 0 boot w1] nd c by simp
  then have p1': "process 0 ''s,fast.'' boot = Some w1" using p1 by simp
  have "Str ''Bad cmd!;'' \<notin> set (printed boot w1)"
    using unparsable_argument_is_zero [of "''s,fast.''" 0 boot w1] p1' k1 by simp
  moreover have "Str ''Bad cmd!;'' \<in> set (printed boot w2)"
    using unparsable_argument_is_zero [of "''q,12345.''" 0 boot w2] p2 k2 by simp
  ultimately show ?thesis using nd u1 s p1' p2 by auto
qed

subsection \<open>The closed-loop move restores the speed\<close>

lemma trace_setM1Speed: "trace (setM1Speed s w) = trace w @ [SetSpeed s]"
  by (simp add: setM1Speed_def)

lemma trace_delay: "trace (delay ms w) = trace w @ [Delay (ms mod 4294967296)]"
  by (simp add: delay_def)

lemma sample_after_stop:
  "fst (get_feedback_value (setM1Speed s (w\<lparr>current_speed := c\<rparr>))) = fst (get_feedback_value w)"
  by (simp add: get_feedback_value_def analogRead_def setM1Speed_def split: list.splits)

lemma finish_shape:
  assumes "finish n t e w = Some (r, w')"
  shows "\<exists>w3. (if e then Some w else correct n t w) = Some w3 \<and>
           trace w' = trace w3 @ [SetSpeed 0, Delay 500] \<and>
           serial_out w' =
             serial_out w3 @ [Str ''Status: '', Num (fst (get_feedback_value w3)), Str '';'']"
proof -
  obtain w3 where c: "(if e then Some w else correct n t w) = Some w3"
    by (cases "if e then Some w else correct n t w") (use assms in \<open>simp_all add: finish_def\<close>)
  have "(r, w') = (True, delay 500 (send_status (setM1Speed 0 (w3\<lparr>current_speed := current_speed w\<rparr>))))"
    using assms c by (simp add: finish_def)
  then have w': "w' = delay 500 (send_status (setM1Speed 0 (w3\<lparr>current_speed := current_speed w\<rparr>)))"
    by blast
  have "trace w' = trace w3 @ [SetSpeed 0, Delay 500]"
    by (simp add: w' trace_delay trace_setM1Speed)
  moreover have "serial_out w' =
      serial_out w3 @ [Str ''Status: '', Num (fst (get_feedback_value w3)), Str '';'']"
    by (simp add: w' serial_out_send_status sample_after_stop)
  ultimately show ?thesis using c by blast
qed

text \<open>
  C7. Whenever \<open>move_to_feedback_value\<close> returns TRUE (a completed or an aborted move),
  \<open>current_speed\<close> has its value from before the call, whatever that was and whether or
  not the correction phase has set it to 50 in between, and \<open>home_limit\<close> and
  \<open>max_limit\<close> are as they were. From the world \<open>w3\<close> in which the coarse loop (when it
  set \<open>end\<close>) or else the correction phase ended, the move has done exactly this: it
  has commanded the motor to speed 0, printed one more status frame with the sample
  taken then, and waited 500 ms.
\<close>

theorem move_to_restores:
  assumes "move_to_feedback_value n t w = Some (True, w')"
  shows "current_speed w' = current_speed w \<and> motor w' = 0 \<and>
         (\<exists>pre v. serial_out w' = pre @ [Str ''Status: '', Num v, Str '';'']) \<and>
         home_limit w' = home_limit w \<and> max_limit w' = max_limit w \<and>
         (\<exists>dir w1 e w2 w3.
            start_move t w = (False, dir, w1) \<and> coarse n dir t w1 = Some (e, w2) \<and>
            (if e then Some w2 else correct n t w2) = Some w3 \<and>
            trace w' = trace w3 @ [SetSpeed 0, Delay 500] \<and>
            serial_out w' =
              serial_out w3 @ [Str ''Status: '', Num (fst (get_feedback_value w3)), Str '';''])"
proof -
  obtain f dir w1 where s: "start_move t w = (f, dir, w1)" by (cases "start_move t w") auto
  have nf: "\<not> f"
    using assms s by (auto simp: move_to_feedback_value_def)
  then obtain e w2 where c: "coarse n dir t w1 = Some (e, w2)"
    and fin: "finish n t e w2 = Some (True, w')"
    using assms s by (auto simp: move_to_feedback_value_def split: option.splits)
  from finish_shape [OF fin] obtain w3 where
    "(if e then Some w2 else correct n t w2) = Some w3"
    "trace w' = trace w3 @ [SetSpeed 0, Delay 500]"
    "serial_out w' =
       serial_out w3 @ [Str ''Status: '', Num (fst (get_feedback_value w3)), Str '';'']"
    by blast
  then have "\<exists>dir w1 e w2 w3.
            start_move t w = (False, dir, w1) \<and> coarse n dir t w1 = Some (e, w2) \<and>
            (if e then Some w2 else correct n t w2) = Some w3 \<and>
            trace w' = trace w3 @ [SetSpeed 0, Delay 500] \<and>
            serial_out w' =
              serial_out w3 @ [Str ''Status: '', Num (fst (get_feedback_value w3)), Str '';'']"
    using s nf c by auto
  then show ?thesis
    using move_to_result [OF assms] by (simp add: evolves_def)
qed

text \<open>
  The move to 2 with the actuator that moves 4 units a delay enters the correction phase
  and drives at the slow speed 50; when it returns \<open>current_speed\<close> is 200 again. The
  move to 800 that an abort ends in its coarse phase returns with the same.
\<close>

theorem move_to_restores_witness:
  "(\<exists>w'. move_to_feedback_value 10 2 stepper = Some (True, w') \<and>
         SetSpeed 50 \<in> set (trace w') \<and> SetSpeed (- 50) \<in> set (trace w') \<and>
         current_speed w' = 200 \<and> motor w' = 0 \<and> home_limit w' = -1 \<and> max_limit w' = -1 \<and>
         (\<exists>pre v. serial_out w' = pre @ [Str ''Status: '', Num v, Str '';''])) \<and>
   (\<exists>w'. move_to_feedback_value 10 800 (stepper\<lparr>actuator := 700, serial_in := [Some ''z'']\<rparr>)
           = Some (True, w') \<and>
         current_speed w' = 200 \<and> motor w' = 0)"
proof -
  let ?a = "stepper\<lparr>actuator := 700, serial_in := [Some ''z'']\<rparr>"
  have "map_option (\<lambda>(r, w'). (r, SetSpeed 50 \<in> set (trace w'), SetSpeed (- 50) \<in> set (trace w')))
          (move_to_feedback_value 10 2 stepper) = Some (True, True, True)"
    by code_simp
  then obtain w' where m: "move_to_feedback_value 10 2 stepper = Some (True, w')"
    and t: "SetSpeed 50 \<in> set (trace w')" "SetSpeed (- 50) \<in> set (trace w')"
    by auto
  have "map_option fst (move_to_feedback_value 10 800 ?a) = Some True"
    by code_simp
  then obtain w'' where m': "move_to_feedback_value 10 800 ?a = Some (True, w'')"
    by auto
  have c: "current_speed stepper = 200" "home_limit stepper = -1" "max_limit stepper = -1"
    "current_speed ?a = 200"
    by (simp_all add: stepper_def boot_def)
  from move_to_restores [OF m] move_to_restores [OF m'] show ?thesis
    using m m' t c by auto
qed

subsection \<open>The bound on the correction pulses\<close>

lemma pulses_append [simp]: "pulses (xs @ ys) = pulses xs + pulses ys"
  by (simp add: pulses_def)

lemma pulses_simps [simp]:
  "pulses [] = 0" "pulses (SetSpeed s # es) = pulses es"
  "pulses (Delay ms # es) = (if ms = 50 then Suc (pulses es) else pulses es)"
  by (simp_all add: pulses_def)

lemma trace_get [simp]: "trace (snd (get_feedback_value w)) = trace w"
  by (simp add: get_feedback_value_def analogRead_def split: list.splits)

lemma trace_abs_diff [simp]: "trace (snd (abs_diff t w)) = trace w"
proof -
  obtain v1 w1 where g1: "get_feedback_value w = (v1, w1)" by (cases "get_feedback_value w")
  obtain v2 w2 where g2: "get_feedback_value w1 = (v2, w2)" by (cases "get_feedback_value w1")
  have "trace w1 = trace w" "trace w2 = trace w1"
    using trace_get [of w] trace_get [of w1] g1 g2 by simp_all
  then show ?thesis using g1 g2 by (simp add: abs_diff_def)
qed

lemma trace_check_abort [simp]: "trace (snd (check_abort w)) = trace w"
  by (simp add: check_abort_def serial_poll_def split: list.splits option.splits)

lemma trace_getFault [simp]: "trace (snd (getFault w)) = trace w"
  by (simp add: getFault_def split: list.splits)

lemma pulses_move_ms:
  "pulses (trace (snd (move_ms 50 dir w))) \<le> Suc (pulses (trace w))"
proof -
  define speed where "speed = (if dir = FORWARD then current_speed w else - current_speed w)"
  obtain f w1 where g: "getFault (setM1Speed speed w) = (f, w1)"
    by (cases "getFault (setM1Speed speed w)")
  have "trace w1 = trace w @ [SetSpeed speed]"
    using trace_getFault [of "setM1Speed speed w"] g by (simp add: trace_setM1Speed)
  then show ?thesis
    using g by (simp add: move_ms_def speed_def [symmetric] trace_delay trace_setM1Speed)
qed

lemma pulses_fine_pass: "pulses (trace (snd (fine_pass t w))) \<le> Suc (pulses (trace w))"
proof -
  define w1 where "w1 = snd (get_feedback_value w)"
  define dir where "dir = (if fst (get_feedback_value w) > t then REVERSE else FORWARD)"
  have "trace (snd (fine_pass t w)) = trace (snd (move_ms 50 dir w1)) @ [Delay 100]"
    by (simp add: fine_pass_def trace_delay w1_def dir_def)
  moreover have "pulses (trace (snd (move_ms 50 dir w1))) \<le> Suc (pulses (trace w1))"
    by (rule pulses_move_ms)
  moreover have "trace w1 = trace w" by (simp add: w1_def)
  ultimately show ?thesis by simp
qed

lemma fine_loop_last_pass: "1 < d \<Longrightarrow> a \<le> 0 \<Longrightarrow> fine_loop t a d w = snd (fine_pass t w)"
  by (subst fine_loop.simps)
     (cases "get_feedback_value w"; cases "fine_pass t w"; auto simp: fine_pass_def)

text \<open>
  In every world the correction loop makes at most one pulse more than \<open>attempts\<close>
  allows: it is entered with \<open>attempts = 10\<close> and so makes at most eleven.
\<close>

lemma fine_loop_pulses:
  "0 \<le> a \<Longrightarrow> pulses (trace (fine_loop t a d w)) \<le> pulses (trace w) + nat a + 1"
proof (induction "nat a" arbitrary: a d w)
  case 0
  then have a: "a \<le> 0" by simp
  show ?case
  proof (cases "1 < d")
    case False
    then show ?thesis by (simp add: fine_loop.simps)
  next
    case True
    then show ?thesis
      using pulses_fine_pass [of t w] by (simp add: fine_loop_last_pass [OF True a])
  qed
next
  case (Suc k)
  then have a: "0 < a" "k = nat (a - 1)" "0 \<le> a - 1" by simp_all
  show ?case
  proof (cases "1 < d")
    case False
    then show ?thesis by (simp add: fine_loop.simps)
  next
    case True
    have p3: "pulses (trace (snd (fine_poll t w))) \<le> Suc (pulses (trace w))"
      using pulses_fine_pass [of t w] by (simp add: fine_poll_def)
    show ?thesis
    proof (cases "fst (fine_poll t w)")
      case True
      then show ?thesis
        using p3 by (simp add: fine_loop_pass [OF \<open>1 < d\<close> a(1)])
    next
      case False
      have "pulses (trace (fine_loop t (a - 1) (fst (fine_pass t w)) (snd (fine_poll t w))))
          \<le> pulses (trace (snd (fine_poll t w))) + nat (a - 1) + 1"
        by (rule Suc.hyps(1) [OF a(2) a(3)])
      then show ?thesis
        using False p3 a(1) by (simp add: fine_loop_pass [OF \<open>1 < d\<close> a(1)] nat_diff_distrib)
    qed
  qed
qed

text \<open>
  C5. The correction loop tests \<open>attempts-- <= 0\<close> after the pulse, with \<open>attempts\<close>
  starting at 10: the test is first true on the eleventh pass. With an actuator that
  moves 4 units a pulse and the target 2, the samples alternate between 0 and 4 and the
  move makes eleven 50 ms pulses before it gives up.
\<close>

theorem eleven_correction_pulses:
  "map_option (\<lambda>(r, w'). (r, pulses (trace w'), actuator w'))
     (move_to_feedback_value 10 2 stepper) = Some (True, 11, 4)"
  by code_simp

subsection \<open>A move that nothing disturbs\<close>


lemma undisturbed_current_speed [simp]:
  "undisturbed S (w\<lparr>current_speed := c\<rparr>) = undisturbed S w"
  by (simp add: undisturbed_def in_limit_zone_def)

lemma undisturbed_setM1Speed [simp]: "undisturbed S (setM1Speed s w) = undisturbed S w"
  by (simp add: undisturbed_def in_limit_zone_def setM1Speed_def)

lemma undisturbed_delay [simp]: "undisturbed S (delay ms w) = undisturbed S w"
  by (simp add: undisturbed_def in_limit_zone_def delay_def)







text \<open>Reading the sensor, the fault flag or the serial line leaves the drive as it is.\<close>

lemma drive_getFault [simp]:
  "actuator (snd (getFault w)) = actuator w" "motor (snd (getFault w)) = motor w"
  by (simp_all add: getFault_def split: list.splits)

lemma drive_check_abort [simp]:
  "actuator (snd (check_abort w)) = actuator w" "motor (snd (check_abort w)) = motor w"
  by (simp_all add: check_abort_def serial_poll_def split: list.splits option.splits)

lemma drive_check_limit [simp]:
  "actuator (snd (check_limit w)) = actuator w" "motor (snd (check_limit w)) = motor w"
  "trace (snd (check_limit w)) = trace w"
  by (simp_all add: check_limit_def get_feedback_value_def analogRead_def Let_def
        split: list.splits)

lemma drive_abort_or_limit [simp]:
  "actuator (snd (abort_or_limit w)) = actuator w" "motor (snd (abort_or_limit w)) = motor w"
  "trace (snd (abort_or_limit w)) = trace w"
proof -
  obtain a w1 where c: "check_abort w = (a, w1)" by (cases "check_abort w")
  have 1: "actuator w1 = actuator w" "motor w1 = motor w" "trace w1 = trace w"
    using drive_check_abort [of w] trace_check_abort [of w] c by simp_all
  have 2: "snd (abort_or_limit w) = (if a then w1 else snd (check_limit w1))"
    using c by (simp add: abort_or_limit_def)
  show "actuator (snd (abort_or_limit w)) = actuator w" "motor (snd (abort_or_limit w)) = motor w"
    "trace (snd (abort_or_limit w)) = trace w"
    using 1 by (simp_all add: 2)
qed




lemma actuator_setM1Speed [simp]: "actuator (setM1Speed s w) = actuator w"
  by (simp add: setM1Speed_def)

lemma actuator_send_status [simp]: "actuator (send_status w) = actuator w"
  by (simp add: send_status_def get_feedback_value_def analogRead_def serial_print_def
           split: prod.splits list.splits)






















end
